theory Spec2Isabelle
  imports Main "HOL-Library.AList" "HOL-Library.Char_ord" "HOL-Library.List_Lexorder" "HOL-Library.Monad_Syntax"
    "HOL-Library.Multiset"
begin

section \<open>Strings and character classes\<close>

text \<open>
  The parser of \<^verbatim>\<open>sqlite-introspector.ts\<close> works on JavaScript strings. A string is
  modelled as a \<^typ>\<open>string\<close>, a list of code units in the range 0..255 (Latin-1), which
  is closed under every operation the parser applies: \<^verbatim>\<open>toLowerCase\<close> maps a Latin-1
  letter to a Latin-1 letter and never changes the length there. Indices are positions
  in the list.
\<close>

abbreviation SQ :: char where "SQ \<equiv> CHR 0x27"
abbreviation DQ :: char where "DQ \<equiv> CHR 0x22"

text \<open>The class \<^verbatim>\<open>\s\<close> of a JavaScript regular expression, which is also what
  \<^verbatim>\<open>String.prototype.trim\<close> strips: TAB, LF, VT, FF, CR, SPACE and NBSP.\<close>

definition isSpace :: "char \<Rightarrow> bool" where
  "isSpace c \<longleftrightarrow> c = CHR 0x09 \<or> c = CHR 0x0A \<or> c = CHR 0x0B \<or> c = CHR 0x0C
     \<or> c = CHR 0x0D \<or> c = CHR 0x20 \<or> c = CHR 0xA0"

text \<open>The class \<^verbatim>\<open>\w\<close>, that is \<^verbatim>\<open>[A-Za-z0-9_]\<close>.\<close>

definition isWord :: "char \<Rightarrow> bool" where
  "isWord c \<longleftrightarrow> (let n = (of_char c :: nat) in
     (48 \<le> n \<and> n \<le> 57) \<or> (65 \<le> n \<and> n \<le> 90) \<or> n = 95 \<or> (97 \<le> n \<and> n \<le> 122))"

text \<open>The class \<^verbatim>\<open>[A-Z_a-z]\<close>.\<close>

definition isIdentStart :: "char \<Rightarrow> bool" where
  "isIdentStart c \<longleftrightarrow> (let n = (of_char c :: nat) in
     (65 \<le> n \<and> n \<le> 90) \<or> n = 95 \<or> (97 \<le> n \<and> n \<le> 122))"

text \<open>The class \<^verbatim>\<open>.\<close> (no \<^verbatim>\<open>s\<close> flag): every character but a line terminator.\<close>

definition isDot :: "char \<Rightarrow> bool" where
  "isDot c \<longleftrightarrow> c \<noteq> CHR 0x0A \<and> c \<noteq> CHR 0x0D"

text \<open>\<^verbatim>\<open>toLowerCase\<close> on one code unit: A-Z and the upper-case letters of Latin-1
  (0xC0..0xDE without the multiplication sign 0xD7) move up by 32.\<close>

definition toLowerChar :: "char \<Rightarrow> char" where
  "toLowerChar c = (let n = (of_char c :: nat) in
     if (65 \<le> n \<and> n \<le> 90) \<or> (192 \<le> n \<and> n \<le> 222 \<and> n \<noteq> 215)
     then char_of (n + 32) else c)"

definition toLowerCase :: "string \<Rightarrow> string" where
  "toLowerCase s = map toLowerChar s"

definition trim :: "string \<Rightarrow> string" where
  "trim s = rev (dropWhile isSpace (rev (dropWhile isSpace s)))"

text \<open>\<^verbatim>\<open>s.replaceAll(/\s+/g, ' ')\<close>: every maximal run of white space becomes one
  space.\<close>

function replaceAll_ws :: "string \<Rightarrow> string" where
  "replaceAll_ws [] = []"
| "replaceAll_ws (c # cs) =
     (if isSpace c then CHR 0x20 # replaceAll_ws (dropWhile isSpace cs)
      else c # replaceAll_ws cs)"
  by pat_completeness auto
termination
  by (relation "measure length") (auto simp: length_dropWhile_le less_Suc_eq_le)

text \<open>\<^verbatim>\<open>s.indexOf(pat, from)\<close>: the first position at or after \<open>from\<close> where
  \<open>pat\<close> starts, \<open>None\<close> for the source's \<^verbatim>\<open>-1\<close>.\<close>

fun indexOf_loop :: "string \<Rightarrow> string \<Rightarrow> nat \<Rightarrow> nat option" where
  "indexOf_loop pat [] i = (if pat = [] then Some i else None)"
| "indexOf_loop pat (c # cs) i =
     (if take (length pat) (c # cs) = pat then Some i else indexOf_loop pat cs (Suc i))"

definition indexOf :: "string \<Rightarrow> string \<Rightarrow> nat \<Rightarrow> nat option" where
  "indexOf s pat from = indexOf_loop pat (drop from s) (min from (length s))"

section \<open>The value-list tokenizer\<close>

text \<open>
  \<^verbatim>\<open>parseValueList\<close>: the loop over the characters with its four variables
  \<^verbatim>\<open>values\<close>, \<^verbatim>\<open>currentValue\<close>, \<^verbatim>\<open>inQuotes\<close> and \<^verbatim>\<open>quoteChar\<close>
  (\<open>None\<close> for the empty string). The \<^verbatim>\<open>i++\<close> of the escaped quote drops the
  second quote from the remaining input.
\<close>

fun parseValueList_loop ::
  "string list \<Rightarrow> string \<Rightarrow> bool \<Rightarrow> char option \<Rightarrow> string \<Rightarrow> string list" where
  "parseValueList_loop vals currentValue inQuotes quoteChar [] =
     (let trimmed = trim currentValue in if trimmed \<noteq> [] then vals @ [trimmed] else vals)"
| "parseValueList_loop vals currentValue inQuotes quoteChar (c # cs) =
     (if \<not> inQuotes \<and> (c = DQ \<or> c = SQ) then
        parseValueList_loop vals currentValue True (Some c) cs
      else if inQuotes \<and> Some c = quoteChar then
        (case cs of
           d # ds \<Rightarrow>
             if Some d = quoteChar then parseValueList_loop vals (currentValue @ [c]) inQuotes quoteChar ds
             else parseValueList_loop vals currentValue False None cs
         | [] \<Rightarrow> parseValueList_loop vals currentValue False None cs)
      else if \<not> inQuotes \<and> c = CHR '','' then
        (let trimmed = trim currentValue in
           parseValueList_loop (if trimmed \<noteq> [] then vals @ [trimmed] else vals) [] inQuotes quoteChar cs)
      else parseValueList_loop vals (currentValue @ [c]) inQuotes quoteChar cs)"

definition parseValueList :: "string \<Rightarrow> string list" where
  "parseValueList valuesString = parseValueList_loop [] [] False None valuesString"

section \<open>Balanced-parenthesis extraction\<close>

text \<open>
  \<^verbatim>\<open>extractParenthesesContent\<close>: the \<^verbatim>\<open>for\<close> loop from \<^verbatim>\<open>startIndex\<close> with its
  counter \<^verbatim>\<open>depth\<close> and its buffer \<^verbatim>\<open>content\<close>; \<open>None\<close> is the source's
  \<^verbatim>\<open>null\<close> for unmatched parentheses.
\<close>

fun extractParenthesesContent_loop :: "int \<Rightarrow> string \<Rightarrow> string \<Rightarrow> string option" where
  "extractParenthesesContent_loop depth content [] = None"
| "extractParenthesesContent_loop depth content (c # cs) =
     (if c = CHR ''('' then
        extractParenthesesContent_loop (depth + 1)
          (if depth + 1 > 1 then content @ [c] else content) cs
      else if c = CHR '')'' then
        (if depth - 1 = 0 then Some content
         else extractParenthesesContent_loop (depth - 1) (content @ [c]) cs)
      else if depth > 0 then extractParenthesesContent_loop depth (content @ [c]) cs
      else extractParenthesesContent_loop depth content cs)"

definition extractParenthesesContent :: "string \<Rightarrow> nat \<Rightarrow> string option" where
  "extractParenthesesContent sql startIndex =
     extractParenthesesContent_loop 0 [] (drop startIndex sql)"

section \<open>The membership-clause recognizer\<close>

text \<open>
  The regular expression of \<^verbatim>\<open>parseInConstraint\<close> is
  \<^verbatim>\<open>/^\s*([A-Z_a-z]\w*)\s+in\s*\(\s*(.+?)\s*\)\s*$/\<close>. Its backtracking search is
  modelled by lists of successes: every piece returns its ways of matching a prefix of
  the input, as pairs (matched text, remaining input), in the order in which the
  matcher tries them: a greedy quantifier the longest first, a lazy one the shortest
  first. The result of \<^verbatim>\<open>match\<close> is the first success of the whole sequence.
\<close>

fun rx_star :: "(char \<Rightarrow> bool) \<Rightarrow> string \<Rightarrow> (string \<times> string) list" where
  "rx_star P [] = [([], [])]"
| "rx_star P (c # cs) =
     (if P c then map (\<lambda>(m, r). (c # m, r)) (rx_star P cs) else []) @ [([], c # cs)]"

fun rx_plus :: "(char \<Rightarrow> bool) \<Rightarrow> string \<Rightarrow> (string \<times> string) list" where
  "rx_plus P [] = []"
| "rx_plus P (c # cs) = (if P c then map (\<lambda>(m, r). (c # m, r)) (rx_star P cs) else [])"

fun rx_plus_lazy :: "(char \<Rightarrow> bool) \<Rightarrow> string \<Rightarrow> (string \<times> string) list" where
  "rx_plus_lazy P [] = []"
| "rx_plus_lazy P (c # cs) =
     (if P c then ([c], cs) # map (\<lambda>(m, r). (c # m, r)) (rx_plus_lazy P cs) else [])"

fun rx_ident :: "string \<Rightarrow> (string \<times> string) list" where
  "rx_ident [] = []"
| "rx_ident (c # cs) =
     (if isIdentStart c then map (\<lambda>(m, r). (c # m, r)) (rx_star isWord cs) else [])"

definition rx_lit :: "string \<Rightarrow> string \<Rightarrow> string list" where
  "rx_lit l s = (if take (length l) s = l then [drop (length l) s] else [])"

definition rx_end :: "'a \<Rightarrow> string \<Rightarrow> 'a list" where
  "rx_end x s = (if s = [] then [x] else [])"

text \<open>All successes of the expression on \<open>s\<close>, each with its two groups.\<close>

definition inMatch_all :: "string \<Rightarrow> (string \<times> string) list" where
  "inMatch_all s = do {
     (w0, r0) \<leftarrow> rx_star isSpace s;
     (g1, r1) \<leftarrow> rx_ident r0;
     (w1, r2) \<leftarrow> rx_plus isSpace r1;
     r3 \<leftarrow> rx_lit ''in'' r2;
     (w2, r4) \<leftarrow> rx_star isSpace r3;
     r5 \<leftarrow> rx_lit ''('' r4;
     (w3, r6) \<leftarrow> rx_star isSpace r5;
     (g2, r7) \<leftarrow> rx_plus_lazy isDot r6;
     (w4, r8) \<leftarrow> rx_star isSpace r7;
     r9 \<leftarrow> rx_lit '')'' r8;
     (w5, r10) \<leftarrow> rx_star isSpace r9;
     rx_end (g1, g2) r10
   }"

definition inMatch :: "string \<Rightarrow> (string \<times> string) option" where
  "inMatch s = (case inMatch_all s of [] \<Rightarrow> None | m # _ \<Rightarrow> Some m)"

text \<open>The object \<^verbatim>\<open>{ column, values }\<close>; the field \<open>vals\<close> is the source's
  \<^verbatim>\<open>values\<close>.\<close>

record EnumConstraint =
  column :: string
  vals :: "string list"

text \<open>\<^verbatim>\<open>parseInConstraint\<close>. The test \<^verbatim>\<open>!inMatch?.[1] || !inMatch[2]\<close> rejects a
  missing match and an empty group.\<close>

definition parseInConstraint :: "string \<Rightarrow> EnumConstraint option" where
  "parseInConstraint constraintContent =
     (case inMatch constraintContent of
        None \<Rightarrow> None
      | Some (columnName, valuesString) \<Rightarrow>
          if columnName = [] \<or> valuesString = [] then None
          else (let values = parseValueList valuesString in
                  if length values > 0 then Some \<lparr>column = columnName, vals = values\<rparr>
                  else None))"

section \<open>The constraint scanner\<close>

definition normalizeSql :: "string \<Rightarrow> string" where
  "normalizeSql sql = toLowerCase (replaceAll_ws sql)"

text \<open>
  The \<^verbatim>\<open>while (true)\<close> loop of \<^verbatim>\<open>parseEnumConstraints\<close>, as a function of
  \<^verbatim>\<open>searchIndex\<close>; it returns what the loop pushes onto \<^verbatim>\<open>constraints\<close> from there
  on. The test \<^verbatim>\<open>!constraintContent\<close> holds for \<^verbatim>\<open>null\<close> and for the empty string.
\<close>

function parseEnumConstraints_loop :: "string \<Rightarrow> nat \<Rightarrow> EnumConstraint list" where
  "parseEnumConstraints_loop normalizedSql searchIndex =
     (case indexOf normalizedSql ''check'' searchIndex of
        None \<Rightarrow> []
      | Some checkIndex \<Rightarrow>
          (case indexOf normalizedSql ''('' checkIndex of
             None \<Rightarrow> []
           | Some openParenIndex \<Rightarrow>
               (case extractParenthesesContent normalizedSql openParenIndex of
                  None \<Rightarrow> parseEnumConstraints_loop normalizedSql (openParenIndex + 1)
                | Some constraintContent \<Rightarrow>
                    if constraintContent = [] then
                      parseEnumConstraints_loop normalizedSql (openParenIndex + 1)
                    else
                      (case parseInConstraint constraintContent of
                         None \<Rightarrow> []
                       | Some enumConstraint \<Rightarrow> [enumConstraint])
                      @ parseEnumConstraints_loop normalizedSql
                          (openParenIndex + length constraintContent + 2))))"
  by pat_completeness auto
termination
proof (relation "measure (\<lambda>(n, i). length n - i)")
  have bound: "i \<le> j \<and> j < i + length s"
    if "indexOf_loop pat s i = Some j" "pat \<noteq> []" for pat s i j
    using that
  proof (induction s arbitrary: i)
    case Nil
    then show ?case by simp
  next
    case (Cons c cs)
    show ?case
    proof (cases "take (length pat) (c # cs) = pat")
      case True
      with Cons.prems show ?thesis by simp
    next
      case False
      with Cons.prems have "indexOf_loop pat cs (Suc i) = Some j" by simp
      from Cons.IH [OF this Cons.prems(2)] show ?thesis by simp
    qed
  qed
  have idx: "from \<le> j \<and> j < length s"
    if "indexOf s pat from = Some j" "pat \<noteq> []" for s pat "from" j
  proof (cases "from \<le> length s")
    case True
    with bound [of pat "drop from s" "min from (length s)" j] that show ?thesis
      by (auto simp: indexOf_def min_def)
  next
    case False
    with that show ?thesis by (simp add: indexOf_def)
  qed
  show "wf (measure (\<lambda>(n, i). length n - i))" by simp
  fix n :: string and i ci oi :: nat
  assume c: "indexOf n ''check'' i = Some ci" and o: "indexOf n ''('' ci = Some oi"
  from idx [OF c] idx [OF o] have le: "i \<le> ci" "ci \<le> oi" "oi < length n" by auto
  from le show "((n, oi + 1), (n, i)) \<in> measure (\<lambda>(n, i). length n - i)" by auto
  from le show "((n, oi + 1), (n, i)) \<in> measure (\<lambda>(n, i). length n - i)" by auto
  fix content :: string
  from le show "((n, oi + length content + 2), (n, i)) \<in> measure (\<lambda>(n, i). length n - i)"
    by auto
qed

declare parseEnumConstraints_loop.simps [simp del]

definition parseEnumConstraints :: "string \<Rightarrow> EnumConstraint list" where
  "parseEnumConstraints sql = parseEnumConstraints_loop (normalizeSql sql) 0"

section \<open>The enum registry and the metadata enricher\<close>

text \<open>
  Modelled from the spec: the class \<^verbatim>\<open>EnumCollection\<close> (\<^verbatim>\<open>enum-collection.ts\<close>) is
  not among the sources. The spec describes the registry as a mapping from
  \<^verbatim>\<open>"<table>.<column>"\<close> to a list of values, where \<^verbatim>\<open>set\<close> overwrites any prior
  entry for that exact key and \<^verbatim>\<open>get\<close> gives the stored list, or null when no entry
  matches.
\<close>

type_synonym EnumCollection = "string \<rightharpoonup> string list"

definition enums_set :: "EnumCollection \<Rightarrow> string \<Rightarrow> string list \<Rightarrow> EnumCollection" where
  "enums_set enums key values = enums(key \<mapsto> values)"

definition enums_get :: "EnumCollection \<Rightarrow> string \<Rightarrow> string list option" where
  "enums_get enums key = enums key"

text \<open>A row of the query on \<^verbatim>\<open>sqlite_master\<close>: the table's name and its
  \<^verbatim>\<open>CREATE TABLE\<close> text, which the loop tests again for null. The two fields are
  the source's \<^verbatim>\<open>name\<close> and \<^verbatim>\<open>sql\<close>.\<close>

record SqliteMasterRow =
  row_name :: string
  row_sql :: "string option"

text \<open>The inner loop of \<^verbatim>\<open>introspectCheckConstraintEnums\<close>: one
  \<^verbatim>\<open>enums.set(key, sortedValues)\<close> per constraint. \<^verbatim>\<open>Array.prototype.sort\<close> without
  a comparator orders strings by their code units, which is the lexicographic order of
  \<^typ>\<open>string\<close>.\<close>

definition storeConstraint :: "string \<Rightarrow> EnumCollection \<Rightarrow> EnumConstraint \<Rightarrow> EnumCollection" where
  "storeConstraint name enums constraint =
     (let key = name @ ''.'' @ column constraint;
          sortedValues = sort (vals constraint)
      in enums_set enums key sortedValues)"

text \<open>The body of the outer loop; \<^verbatim>\<open>!row.sql\<close> holds for null and for the empty
  string.\<close>

definition introspectRow :: "EnumCollection \<Rightarrow> SqliteMasterRow \<Rightarrow> EnumCollection" where
  "introspectRow enums row =
     (case row_sql row of
        None \<Rightarrow> enums
      | Some sql \<Rightarrow>
          if sql = [] then enums
          else foldl (storeConstraint (row_name row)) enums (parseEnumConstraints sql))"

definition introspectCheckConstraintEnums :: "SqliteMasterRow list \<Rightarrow> EnumCollection" where
  "introspectCheckConstraintEnums rows = foldl introspectRow Map.empty rows"

text \<open>
  The table and column descriptors of the introspection layer (\<^verbatim>\<open>TableMetadata\<close> of
  kysely) are JavaScript objects, and the lists of them are arrays: a variable holds a
  reference, and two references to one object see each other's assignments. They are
  modelled in a store. A reference is the index of a cell; a cell is an object, given
  by its own properties in their order, or an array; allocating appends a cell. A
  property holds a primitive value or a reference. The list of values that
  \<open>enums_get\<close> gives is a value of the model of \<^verbatim>\<open>EnumCollection\<close> and is stored as
  such.
\<close>

type_synonym addr = nat

datatype val = Null | Bool bool | Num int | Str string | Strs "string list" | Ref addr

datatype cell = Obj "(string \<times> val) list" | Arr "val list"

type_synonym heap = "cell list"

definition alloc :: "cell \<Rightarrow> heap \<Rightarrow> val \<times> heap" where
  "alloc c h = (Ref (length h), h @ [c])"

fun deref :: "heap \<Rightarrow> val \<Rightarrow> cell option" where
  "deref h (Ref a) = (if a < length h then Some (h ! a) else None)"
| "deref h _ = None"

text \<open>Reading the properties of an object and the elements of an array. The type
  \<^verbatim>\<open>KyselyTableMetadata[]\<close> of the source promises an array of objects with a string
  \<^verbatim>\<open>name\<close> and an array \<^verbatim>\<open>columns\<close> of objects with a string \<^verbatim>\<open>name\<close>; where a value
  is not of the promised kind the model returns \<open>None\<close>.\<close>

definition read_obj :: "heap \<Rightarrow> val \<Rightarrow> (string \<times> val) list option" where
  "read_obj h v = (case deref h v of Some (Obj props) \<Rightarrow> Some props | _ \<Rightarrow> None)"

definition read_arr :: "heap \<Rightarrow> val \<Rightarrow> val list option" where
  "read_arr h v = (case deref h v of Some (Arr elems) \<Rightarrow> Some elems | _ \<Rightarrow> None)"

definition get_str :: "(string \<times> val) list \<Rightarrow> string \<Rightarrow> string option" where
  "get_str props k = (case map_of props k of Some (Str s) \<Rightarrow> Some s | _ \<Rightarrow> None)"

text \<open>\<^verbatim>\<open>Array.prototype.map\<close>: the callback is applied to the elements from left to
  right, each call in the store the previous one left, and the results are the
  elements of a new array.\<close>

fun array_map_elems ::
  "(val \<Rightarrow> heap \<Rightarrow> (val \<times> heap) option) \<Rightarrow> val list \<Rightarrow> heap \<Rightarrow> (val list \<times> heap) option" where
  "array_map_elems f [] h = Some ([], h)"
| "array_map_elems f (v # vs) h = do {
     (v', h1) \<leftarrow> f v h;
     (vs', h2) \<leftarrow> array_map_elems f vs h1;
     Some (v' # vs', h2)
   }"

definition array_map ::
  "(val \<Rightarrow> heap \<Rightarrow> (val \<times> heap) option) \<Rightarrow> val \<Rightarrow> heap \<Rightarrow> (val \<times> heap) option" where
  "array_map f arr h = do {
     elems \<leftarrow> read_arr h arr;
     (elems', h1) \<leftarrow> array_map_elems f elems h;
     Some (alloc (Arr elems') h1)
   }"

text \<open>What \<^verbatim>\<open>enums.get(enumKey)\<close> gives as a value of the store: the stored list, or
  null.\<close>

definition enumValuesOf :: "EnumCollection \<Rightarrow> string \<Rightarrow> val" where
  "enumValuesOf enums key = (case enums_get enums key of None \<Rightarrow> Null | Some values \<Rightarrow> Strs values)"

text \<open>The inner callback of \<^verbatim>\<open>createDatabaseMetadata\<close>, lines 140 to 147. The object
  literal \<^verbatim>\<open>{ ...column, enumValues }\<close> is a new object with the properties of
  \<^verbatim>\<open>column\<close> and the property \<^verbatim>\<open>enumValues\<close>, which replaces a property of that name
  where it stands and is appended otherwise: this is \<open>AList.update\<close>.\<close>

definition enrichColumn :: "EnumCollection \<Rightarrow> val \<Rightarrow> val \<Rightarrow> heap \<Rightarrow> (val \<times> heap) option" where
  "enrichColumn enums table col h = do {
     tableFields \<leftarrow> read_obj h table;
     tableName \<leftarrow> get_str tableFields ''name'';
     columnFields \<leftarrow> read_obj h col;
     columnName \<leftarrow> get_str columnFields ''name'';
     let enumKey = tableName @ ''.'' @ columnName;
         enumValues = enumValuesOf enums enumKey
     in Some (alloc (Obj (AList.update ''enumValues'' enumValues columnFields)) h)
   }"

text \<open>The outer callback, lines 138 to 148: \<^verbatim>\<open>{ ...table, columns: table.columns.map(...) }\<close>.\<close>

definition enrichTable :: "EnumCollection \<Rightarrow> val \<Rightarrow> heap \<Rightarrow> (val \<times> heap) option" where
  "enrichTable enums table h = do {
     tableFields \<leftarrow> read_obj h table;
     cols \<leftarrow> map_of tableFields ''columns'';
     (columns, h1) \<leftarrow> array_map (enrichColumn enums table) cols h;
     Some (alloc (Obj (AList.update ''columns'' columns tableFields)) h1)
   }"

text \<open>
  Modelled from the spec: the class \<^verbatim>\<open>DatabaseMetadata\<close>
  (\<^verbatim>\<open>metadata/database-metadata.ts\<close>) is not among the sources. The spec counts it
  among the generic metadata container types that hold tables and columns, and says
  of the output that the descriptors are returned with one added field per column and
  no change to any other field. The constructor is therefore modelled as allocating
  one object that holds the array it is given under \<^verbatim>\<open>tables\<close>, the property that the
  tests read.
\<close>

definition newDatabaseMetadata :: "val \<Rightarrow> heap \<Rightarrow> val \<times> heap" where
  "newDatabaseMetadata tables h = alloc (Obj [(''tables'', tables)]) h"

text \<open>\<^verbatim>\<open>createDatabaseMetadata\<close>: the array \<^verbatim>\<open>tables\<close> of line 138, then
  \<^verbatim>\<open>new DatabaseMetadata({ tables })\<close>.\<close>

definition createDatabaseMetadata :: "EnumCollection \<Rightarrow> val \<Rightarrow> heap \<Rightarrow> (val \<times> heap) option" where
  "createDatabaseMetadata enums rawTables h = do {
     (tables, h1) \<leftarrow> array_map (enrichTable enums) rawTables h;
     Some (newDatabaseMetadata tables h1)
   }"

text \<open>\<^verbatim>\<open>introspect\<close>, given what the two queries returned: a reference to the array
  of table descriptors, and the rows of \<^verbatim>\<open>sqlite_master\<close>.\<close>

definition introspect :: "val \<Rightarrow> SqliteMasterRow list \<Rightarrow> heap \<Rightarrow> (val \<times> heap) option" where
  "introspect tables rows h = createDatabaseMetadata (introspectCheckConstraintEnums rows) tables h"

section \<open>Auxiliary notions for the properties\<close>

text \<open>The text of a quoted literal with the delimiter \<open>q\<close>: every \<open>q\<close> of the
  content is doubled.\<close>

definition doubleQuotes :: "char \<Rightarrow> string \<Rightarrow> string" where
  "doubleQuotes q w = concat (map (\<lambda>c. if c = q then [q, q] else [c]) w)"

text \<open>What the registry builder stores for one constraint of the table \<open>name\<close>, and
  the stores of a whole run in the order in which they happen.\<close>

definition registryEntry :: "string \<Rightarrow> EnumConstraint \<Rightarrow> string \<times> string list" where
  "registryEntry name constraint = (name @ ''.'' @ column constraint, sort (vals constraint))"

definition rowEntries :: "SqliteMasterRow \<Rightarrow> (string \<times> string list) list" where
  "rowEntries row =
     (case row_sql row of
        None \<Rightarrow> []
      | Some sql \<Rightarrow> map (registryEntry (row_name row)) (parseEnumConstraints sql))"

definition registryEntries :: "SqliteMasterRow list \<Rightarrow> (string \<times> string list) list" where
  "registryEntries rows = concat (map rowEntries rows)"

text \<open>The expression of \<open>inMatch_all\<close> cut into its three parts, from the back:
  \<^verbatim>\<open>\s*\)\s*$\<close>, then \<^verbatim>\<open>\s*(.+?)\<close> before it, then \<^verbatim>\<open>\s+in\s*\(\<close> before that.\<close>

definition rx_close :: "string \<times> string \<Rightarrow> string \<Rightarrow> (string \<times> string) list" where
  "rx_close g r = do {
     (w4, r8) \<leftarrow> rx_star isSpace r;
     r9 \<leftarrow> rx_lit '')'' r8;
     (w5, r10) \<leftarrow> rx_star isSpace r9;
     rx_end g r10
   }"

definition rx_body :: "string \<Rightarrow> string \<Rightarrow> (string \<times> string) list" where
  "rx_body g1 r = do {
     (w3, r6) \<leftarrow> rx_star isSpace r;
     (g2, r7) \<leftarrow> rx_plus_lazy isDot r6;
     rx_close (g1, g2) r7
   }"

definition rx_keyword :: "string \<Rightarrow> string \<Rightarrow> (string \<times> string) list" where
  "rx_keyword g1 r = do {
     (w1, r2) \<leftarrow> rx_plus isSpace r;
     r3 \<leftarrow> rx_lit ''in'' r2;
     (w2, r4) \<leftarrow> rx_star isSpace r3;
     r5 \<leftarrow> rx_lit ''('' r4;
     rx_body g1 r5
   }"

text \<open>An identifier: a letter or underscore, then letters, digits and underscores.\<close>

definition isIdentifier :: "string \<Rightarrow> bool" where
  "isIdentifier w \<longleftrightarrow> w \<noteq> [] \<and> isIdentStart (hd w) \<and> list_all isWord (tl w)"




definition isTrimmed :: "string \<Rightarrow> bool" where
  "isTrimmed v \<longleftrightarrow> v \<noteq> [] \<and> \<not> isSpace (hd v) \<and> \<not> isSpace (last v)"







text \<open>
  The nesting depth at the end of a text (opening parentheses minus closing ones), and
  what it means that the parenthesis at position \<open>i\<close> has no matching closing
  parenthesis: the depth, counted from \<open>i\<close>, never returns to 0.
\<close>

fun parenDepth :: "string \<Rightarrow> int" where
  "parenDepth [] = 0"
| "parenDepth (c # cs) =
     (if c = CHR ''('' then 1 else if c = CHR '')'' then - 1 else 0) + parenDepth cs"

definition unmatchedFrom :: "string \<Rightarrow> nat \<Rightarrow> bool" where
  "unmatchedFrom s i \<longleftrightarrow> (\<forall>k. 0 < k \<and> k \<le> length s - i \<longrightarrow> parenDepth (take k (drop i s)) \<noteq> 0)"

text \<open>
  The notions for the enricher. \<open>unchanged h h'\<close>: the store \<open>h'\<close> has every cell of
  \<open>h\<close> at its place with its content, so that everything after it was allocated
  since. A value is fresh for \<open>h\<close> when it is a reference to a cell that \<open>h\<close> does not
  have.
\<close>

definition unchanged :: "heap \<Rightarrow> heap \<Rightarrow> bool" where
  "unchanged h h' \<longleftrightarrow> take (length h) h' = h"

definition fresh :: "heap \<Rightarrow> val \<Rightarrow> bool" where
  "fresh h v \<longleftrightarrow> (case v of Ref a \<Rightarrow> length h \<le> a | _ \<Rightarrow> False)"

text \<open>The descriptors that the type \<^verbatim>\<open>KyselyTableMetadata[]\<close> promises: an array of
  objects with a string \<^verbatim>\<open>name\<close> and an array \<^verbatim>\<open>columns\<close> of objects with a string
  \<^verbatim>\<open>name\<close>.\<close>

definition wf_column :: "heap \<Rightarrow> val \<Rightarrow> bool" where
  "wf_column h col \<longleftrightarrow>
     (case read_obj h col of None \<Rightarrow> False | Some props \<Rightarrow> get_str props ''name'' \<noteq> None)"

definition wf_table :: "heap \<Rightarrow> val \<Rightarrow> bool" where
  "wf_table h table \<longleftrightarrow>
     (case read_obj h table of None \<Rightarrow> False
      | Some props \<Rightarrow> get_str props ''name'' \<noteq> None
          \<and> (case map_of props ''columns'' of None \<Rightarrow> False
             | Some cols \<Rightarrow> (case read_arr h cols of None \<Rightarrow> False
                             | Some elems \<Rightarrow> list_all (wf_column h) elems)))"

definition wf_tables :: "heap \<Rightarrow> val \<Rightarrow> bool" where
  "wf_tables h rawTables \<longleftrightarrow>
     (case read_arr h rawTables of None \<Rightarrow> False | Some elems \<Rightarrow> list_all (wf_table h) elems)"

text \<open>
  \<open>columnEnriched enums tableName h h' col col'\<close>: \<open>col'\<close> is a new object, and its
  properties in \<open>h'\<close> are those that \<open>col\<close> has in \<open>h\<close> with the one property
  \<^verbatim>\<open>enumValues\<close> set to what the registry holds under \<open>tableName @ ''.'' @ columnName\<close>.
  \<open>tableEnriched enums h h' table table'\<close>: \<open>table'\<close> is a new object, and its
  properties in \<open>h'\<close> are those that \<open>table\<close> has in \<open>h\<close> with \<^verbatim>\<open>columns\<close> set to a new
  array, whose elements are, one for one and in the same order, the enriched columns
  of \<open>table\<close>.
\<close>

definition columnEnriched ::
  "EnumCollection \<Rightarrow> string \<Rightarrow> heap \<Rightarrow> heap \<Rightarrow> val \<Rightarrow> val \<Rightarrow> bool" where
  "columnEnriched enums tableName h h' col col' \<longleftrightarrow>
     (\<exists>props columnName.
        read_obj h col = Some props \<and> get_str props ''name'' = Some columnName
        \<and> fresh h col'
        \<and> read_obj h' col'
            = Some (AList.update ''enumValues''
                      (enumValuesOf enums (tableName @ ''.'' @ columnName)) props))"

definition tableEnriched :: "EnumCollection \<Rightarrow> heap \<Rightarrow> heap \<Rightarrow> val \<Rightarrow> val \<Rightarrow> bool" where
  "tableEnriched enums h h' table table' \<longleftrightarrow>
     (\<exists>props tableName cols elems cols' elems'.
        read_obj h table = Some props \<and> get_str props ''name'' = Some tableName
        \<and> map_of props ''columns'' = Some cols \<and> read_arr h cols = Some elems
        \<and> fresh h table' \<and> read_obj h' table' = Some (AList.update ''columns'' cols' props)
        \<and> fresh h cols' \<and> read_arr h' cols' = Some elems'
        \<and> list_all2 (columnEnriched enums tableName h h') elems elems')"

text \<open>Reading the output: the property \<open>k\<close> of an object, and the elements of the
  array that the property \<open>k\<close> of an object refers to.\<close>

definition fieldOf :: "heap \<Rightarrow> val \<Rightarrow> string \<Rightarrow> val option" where
  "fieldOf h v k = (case read_obj h v of None \<Rightarrow> None | Some props \<Rightarrow> map_of props k)"

definition elemsOf :: "heap \<Rightarrow> val \<Rightarrow> string \<Rightarrow> val list" where
  "elemsOf h v k =
     (case fieldOf h v k of None \<Rightarrow> []
      | Some arr \<Rightarrow> (case read_arr h arr of None \<Rightarrow> [] | Some elems \<Rightarrow> elems))"

text \<open>What holds of every column and table object that the enricher allocates,
  whatever it was given: the property \<^verbatim>\<open>enumValues\<close> of the column is what the
  registry holds under some key.\<close>

definition columnOut :: "EnumCollection \<Rightarrow> val \<Rightarrow> heap \<Rightarrow> bool" where
  "columnOut enums col' h \<longleftrightarrow>
     (\<exists>key. fieldOf h col' ''enumValues'' = Some (enumValuesOf enums key))"

definition tableOut :: "EnumCollection \<Rightarrow> val \<Rightarrow> heap \<Rightarrow> bool" where
  "tableOut enums table' h \<longleftrightarrow>
     (\<exists>cols' elems'. fieldOf h table' ''columns'' = Some cols' \<and> read_arr h cols' = Some elems'
        \<and> list_all (\<lambda>c'. columnOut enums c' h) elems')"

text \<open>An example store: the array at 0 holds the one table \<^verbatim>\<open>t\<close>, which has the two
  columns \<^verbatim>\<open>x\<close> and \<^verbatim>\<open>y\<close>.\<close>

abbreviation exampleStore :: heap where
  "exampleStore \<equiv>
     [Arr [Ref 1],
      Obj [(''name'', Str ''t''), (''isView'', Bool False), (''columns'', Ref 2)],
      Arr [Ref 3, Ref 4],
      Obj [(''name'', Str ''x''), (''dataType'', Str ''TEXT'')],
      Obj [(''name'', Str ''y''), (''dataType'', Str ''TEXT'')]]"

section \<open>Properties of the tokenizer\<close>

lemma quoted_doubled:
  "parseValueList_loop vs cur True (Some q) (q # q # rest)
     = parseValueList_loop vs (cur @ [q]) True (Some q) rest"
  by simp

lemma quoted_close:
  "rest = [] \<or> hd rest \<noteq> q \<Longrightarrow>
   parseValueList_loop vs cur True (Some q) (q # rest) = parseValueList_loop vs cur False None rest"
  by (cases rest) auto

lemma quoted_other:
  "c \<noteq> q \<Longrightarrow>
   parseValueList_loop vs cur True (Some q) (c # rest)
     = parseValueList_loop vs (cur @ [c]) True (Some q) rest"
  by simp

lemma quoted_content:
  "rest = [] \<or> hd rest \<noteq> q \<Longrightarrow>
   parseValueList_loop vs cur True (Some q) (doubleQuotes q w @ q # rest)
     = parseValueList_loop vs (cur @ w) False None rest"
proof (induction w arbitrary: cur)
  case Nil
  then show ?case using quoted_close [of rest q vs cur] by (simp add: doubleQuotes_def)
next
  case (Cons c w)
  show ?case
  proof (cases "c = q")
    case True
    have "doubleQuotes q (c # w) @ q # rest = q # q # (doubleQuotes q w @ q # rest)"
      using True by (simp add: doubleQuotes_def)
    then have "parseValueList_loop vs cur True (Some q) (doubleQuotes q (c # w) @ q # rest)
        = parseValueList_loop vs (cur @ [q]) True (Some q) (doubleQuotes q w @ q # rest)"
      by (simp only: quoted_doubled)
    also have "\<dots> = parseValueList_loop vs ((cur @ [q]) @ w) False None rest"
      by (rule Cons.IH [OF Cons.prems])
    finally show ?thesis using True by simp
  next
    case False
    have "doubleQuotes q (c # w) @ q # rest = c # (doubleQuotes q w @ q # rest)"
      using False by (simp add: doubleQuotes_def)
    then have "parseValueList_loop vs cur True (Some q) (doubleQuotes q (c # w) @ q # rest)
        = parseValueList_loop vs (cur @ [c]) True (Some q) (doubleQuotes q w @ q # rest)"
      by (simp only: quoted_other [OF False])
    also have "\<dots> = parseValueList_loop vs ((cur @ [c]) @ w) False None rest"
      by (rule Cons.IH [OF Cons.prems])
    finally show ?thesis by simp
  qed
qed

text \<open>
  C4. Inside a quoted region (\<open>inQuotes\<close> set, active delimiter \<open>q\<close>) the tokenizer
  takes a doubled \<open>q\<close> as one literal \<open>q\<close> and skips both characters, takes a single \<open>q\<close>
  (one not followed by another \<open>q\<close>) as the end of the region, and appends every other
  character to the current value, a comma or white space included. Hence a whole
  quoted literal, whatever its content \<open>w\<close>, adds exactly \<open>w\<close> to the current value and
  leaves the region. The text \<^verbatim>\<open>'it''s', "ok"\<close> yields the two values \<^verbatim>\<open>it's\<close> and
  \<^verbatim>\<open>ok\<close>.
\<close>

theorem tokenizer_quoted_region:
  "parseValueList_loop vs cur True (Some q) (q # q # rest)
     = parseValueList_loop vs (cur @ [q]) True (Some q) rest
   \<and> (rest = [] \<or> hd rest \<noteq> q \<longrightarrow>
        parseValueList_loop vs cur True (Some q) (q # rest)
          = parseValueList_loop vs cur False None rest)
   \<and> (c \<noteq> q \<longrightarrow>
        parseValueList_loop vs cur True (Some q) (c # rest)
          = parseValueList_loop vs (cur @ [c]) True (Some q) rest)
   \<and> (rest = [] \<or> hd rest \<noteq> q \<longrightarrow>
        parseValueList_loop vs cur True (Some q) (doubleQuotes q w @ q # rest)
          = parseValueList_loop vs (cur @ w) False None rest)
   \<and> parseValueList (SQ # ''it'' @ [SQ, SQ] @ ''s', '' @ [DQ] @ ''ok'' @ [DQ])
       = [''it's'', ''ok'']"
proof (intro conjI impI)
  show "parseValueList (SQ # ''it'' @ [SQ, SQ] @ ''s', '' @ [DQ] @ ''ok'' @ [DQ])
          = [''it's'', ''ok'']"
    by (simp add: parseValueList_def trim_def isSpace_def)
next
  show "parseValueList_loop vs cur True (Some q) (q # q # rest)
          = parseValueList_loop vs (cur @ [q]) True (Some q) rest"
    by (rule quoted_doubled)
next
  assume "rest = [] \<or> hd rest \<noteq> q"
  then show "parseValueList_loop vs cur True (Some q) (q # rest)
          = parseValueList_loop vs cur False None rest"
    by (rule quoted_close)
next
  assume "c \<noteq> q"
  then show "parseValueList_loop vs cur True (Some q) (c # rest)
          = parseValueList_loop vs (cur @ [c]) True (Some q) rest"
    by (rule quoted_other)
next
  assume "rest = [] \<or> hd rest \<noteq> q"
  then show "parseValueList_loop vs cur True (Some q) (doubleQuotes q w @ q # rest)
          = parseValueList_loop vs (cur @ w) False None rest"
    by (rule quoted_content)
qed

theorem tokenizer_quoted_region_witness:
  "hd '', b'' \<noteq> SQ \<and> CHR '','' \<noteq> SQ
   \<and> parseValueList_loop [] ''x'' True (Some SQ) (CHR '','' # '', b'')
       = parseValueList_loop [] ''x,'' True (Some SQ) '', b''
   \<and> parseValueList_loop [] [] True (Some SQ) (SQ # '', b'')
       = parseValueList_loop [] [] False None '', b''
   \<and> parseValueList_loop [] [] True (Some SQ) (doubleQuotes SQ ''a, 'b'' @ SQ # '', b'')
       = [''a, 'b'', ''b'']"
  using tokenizer_quoted_region [of "[]" "''x''" SQ "'', b''" "CHR '',''" "''a, 'b''"]
    tokenizer_quoted_region [of "[]" "[]" SQ "'', b''" "CHR '',''" "''a, 'b''"]
  by (simp add: trim_def isSpace_def)

section \<open>Properties of the scanner\<close>

lemma indexOf_loop_bound:
  "indexOf_loop pat s i = Some j \<Longrightarrow> pat \<noteq> [] \<Longrightarrow> i \<le> j \<and> j < i + length s"
proof (induction s arbitrary: i)
  case Nil
  then show ?case by simp
next
  case (Cons c cs)
  show ?case
  proof (cases "take (length pat) (c # cs) = pat")
    case True
    with Cons.prems show ?thesis by simp
  next
    case False
    with Cons.prems have "indexOf_loop pat cs (Suc i) = Some j" by simp
    from Cons.IH [OF this Cons.prems(2)] show ?thesis by simp
  qed
qed

lemma indexOf_bound:
  assumes "indexOf s pat from = Some j" "pat \<noteq> []"
  shows "from \<le> j \<and> j < length s"
proof (cases "from \<le> length s")
  case True
  with indexOf_loop_bound [of pat "drop from s" "min from (length s)" j] assms show ?thesis
    by (auto simp: indexOf_def min_def)
next
  case False
  with assms show ?thesis by (simp add: indexOf_def)
qed


lemma loop_no_check:
  "indexOf n ''check'' si = None \<Longrightarrow> parseEnumConstraints_loop n si = []"
  by (subst parseEnumConstraints_loop.simps) simp

lemma loop_no_paren:
  "indexOf n ''check'' si = Some ci \<Longrightarrow> indexOf n ''('' ci = None \<Longrightarrow>
   parseEnumConstraints_loop n si = []"
  by (subst parseEnumConstraints_loop.simps) simp

lemma loop_unmatched:
  "indexOf n ''check'' si = Some ci \<Longrightarrow> indexOf n ''('' ci = Some oi \<Longrightarrow>
   extractParenthesesContent n oi = None \<Longrightarrow>
   parseEnumConstraints_loop n si = parseEnumConstraints_loop n (oi + 1)"
  by (subst parseEnumConstraints_loop.simps) simp

lemma loop_empty_span:
  "indexOf n ''check'' si = Some ci \<Longrightarrow> indexOf n ''('' ci = Some oi \<Longrightarrow>
   extractParenthesesContent n oi = Some [] \<Longrightarrow>
   parseEnumConstraints_loop n si = parseEnumConstraints_loop n (oi + 1)"
  by (subst parseEnumConstraints_loop.simps) simp

lemma loop_span:
  "indexOf n ''check'' si = Some ci \<Longrightarrow> indexOf n ''('' ci = Some oi \<Longrightarrow>
   extractParenthesesContent n oi = Some content \<Longrightarrow> content \<noteq> [] \<Longrightarrow>
   parseEnumConstraints_loop n si
     = (case parseInConstraint content of None \<Rightarrow> [] | Some e \<Rightarrow> [e])
       @ parseEnumConstraints_loop n (oi + length content + 2)"
  by (subst parseEnumConstraints_loop.simps) simp

lemma parseInConstraint_nonempty:
  "parseInConstraint s = Some c \<Longrightarrow> vals c \<noteq> []"
  by (auto simp: parseInConstraint_def Let_def split: option.splits if_splits prod.splits)

lemma loop_member_span:
  "c \<in> set (parseEnumConstraints_loop n si) \<Longrightarrow>
   \<exists>oi content. extractParenthesesContent n oi = Some content \<and> parseInConstraint content = Some c"
proof (induction n si rule: parseEnumConstraints_loop.induct)
  case (1 n si)
  show ?case
  proof (cases "indexOf n ''check'' si")
    case None
    with "1.prems" show ?thesis by (simp add: loop_no_check)
  next
    case ci: (Some ci)
    show ?thesis
    proof (cases "indexOf n ''('' ci")
      case None
      with "1.prems" ci show ?thesis by (simp add: loop_no_paren)
    next
      case oi: (Some oi)
      show ?thesis
      proof (cases "extractParenthesesContent n oi")
        case None
        with "1.prems" have "c \<in> set (parseEnumConstraints_loop n (oi + 1))"
          by (simp only: loop_unmatched [OF ci oi None])
        with "1.IH"(1) [OF ci oi None] show ?thesis .
      next
        case (Some content)
        show ?thesis
        proof (cases "content = []")
          case True
          with "1.prems" Some have "c \<in> set (parseEnumConstraints_loop n (oi + 1))"
            by (simp only: loop_empty_span [OF ci oi])
          with "1.IH"(2) [OF ci oi Some True] show ?thesis .
        next
          case False
          from "1.prems" have "c \<in> set (case parseInConstraint content of None \<Rightarrow> [] | Some e \<Rightarrow> [e])
              \<or> c \<in> set (parseEnumConstraints_loop n (oi + length content + 2))"
            by (simp only: loop_span [OF ci oi Some False] set_append Un_iff)
          then show ?thesis
          proof
            assume "c \<in> set (case parseInConstraint content of None \<Rightarrow> [] | Some e \<Rightarrow> [e])"
            then have "parseInConstraint content = Some c" by (auto split: option.splits)
            with Some show ?thesis by blast
          next
            assume "c \<in> set (parseEnumConstraints_loop n (oi + length content + 2))"
            with "1.IH"(3) [OF ci oi Some False] show ?thesis .
          qed
        qed
      qed
    qed
  qed
qed


lemma loop_vals_nonempty:
  "c \<in> set (parseEnumConstraints_loop n si) \<Longrightarrow> vals c \<noteq> []"
  by (blast dest: loop_member_span parseInConstraint_nonempty)

lemma extract_loop_unmatched:
  "(\<forall>k. 0 < k \<and> k \<le> length s \<longrightarrow> depth + parenDepth (take k s) \<noteq> 0) \<Longrightarrow>
   extractParenthesesContent_loop depth content s = None"
proof (induction s arbitrary: depth content)
  case Nil
  show ?case by simp
next
  case (Cons c cs)
  let ?d = "if c = CHR ''('' then 1 else if c = CHR '')'' then - 1 else (0::int)"
  have step: "\<forall>k. 0 < k \<and> k \<le> length cs \<longrightarrow> (depth + ?d) + parenDepth (take k cs) \<noteq> 0"
  proof (intro allI impI)
    fix k assume "0 < k \<and> k \<le> length cs"
    then have "0 < Suc k \<and> Suc k \<le> length (c # cs)" by simp
    with Cons.prems have "depth + parenDepth (take (Suc k) (c # cs)) \<noteq> 0" by blast
    then show "(depth + ?d) + parenDepth (take k cs) \<noteq> 0" by (simp add: add.assoc)
  qed
  from Cons.prems have first: "depth + parenDepth (take 1 (c # cs)) \<noteq> 0"
    by (metis One_nat_def Suc_leI length_Cons zero_less_Suc zero_less_one)
  show ?case
  proof (cases "c = CHR ''(''")
    case True
    with step have "\<forall>k. 0 < k \<and> k \<le> length cs \<longrightarrow> (depth + 1) + parenDepth (take k cs) \<noteq> 0"
      by simp
    from Cons.IH [OF this] True show ?thesis by simp
  next
    case a: False
    show ?thesis
    proof (cases "c = CHR '')''")
      case True
      with a step have s: "\<forall>k. 0 < k \<and> k \<le> length cs \<longrightarrow> (depth - 1) + parenDepth (take k cs) \<noteq> 0"
        by simp
      from first True a have "depth - 1 \<noteq> 0" by simp
      with Cons.IH [OF s] True a show ?thesis by simp
    next
      case False
      with a step have "\<forall>k. 0 < k \<and> k \<le> length cs \<longrightarrow> depth + parenDepth (take k cs) \<noteq> 0"
        by simp
      from Cons.IH [OF this] a False show ?thesis by simp
    qed
  qed
qed

lemma extract_unmatched: "unmatchedFrom n oi \<Longrightarrow> extractParenthesesContent n oi = None"
  unfolding unmatchedFrom_def extractParenthesesContent_def
  using extract_loop_unmatched [of "drop oi n" 0] by simp


text \<open>
  C3. Scanning is the total function \<open>parseEnumConstraints_loop\<close>: its termination
  proof shows that every iteration moves \<open>searchIndex\<close> strictly forward within the
  text, so the loop returns on every input. When the occurrence of \<^verbatim>\<open>check\<close> found
  at \<open>ci\<close> is followed by an opening parenthesis at \<open>oi\<close> that has no matching closing
  parenthesis, the extraction yields no span, the iteration pushes nothing, and the
  loop goes on from \<open>oi + 1\<close>, which lies beyond the cursor \<open>si\<close> it started from and
  within the text. The spec's example \<^verbatim>\<open>CHECK (status IN ('a','b'\<close> yields no
  constraint.
\<close>

theorem scan_skips_unmatched_paren:
  assumes "indexOf n ''check'' si = Some ci"
    and "indexOf n ''('' ci = Some oi"
    and "unmatchedFrom n oi"
  shows "extractParenthesesContent n oi = None
         \<and> parseEnumConstraints_loop n si = parseEnumConstraints_loop n (oi + 1)
         \<and> si < oi + 1 \<and> oi + 1 \<le> length n"
proof -
  have none: "extractParenthesesContent n oi = None" by (rule extract_unmatched [OF assms(3)])
  from indexOf_bound [OF assms(1)] indexOf_bound [OF assms(2)]
  have "si \<le> ci" "ci \<le> oi" "oi < length n" by auto
  moreover have "parseEnumConstraints_loop n si = parseEnumConstraints_loop n (oi + 1)"
    by (rule loop_unmatched [OF assms(1,2) none])
  ultimately show ?thesis using none by simp
qed

theorem scan_skips_unmatched_paren_witness:
  "indexOf (normalizeSql (''CHECK (status IN ('a','b'' @ [SQ])) ''check'' 0 = Some 0
   \<and> indexOf (normalizeSql (''CHECK (status IN ('a','b'' @ [SQ])) ''('' 0 = Some 6
   \<and> unmatchedFrom (normalizeSql (''CHECK (status IN ('a','b'' @ [SQ])) 6
   \<and> extractParenthesesContent (normalizeSql (''CHECK (status IN ('a','b'' @ [SQ])) 6 = None
   \<and> parseEnumConstraints_loop (normalizeSql (''CHECK (status IN ('a','b'' @ [SQ])) 0
        = parseEnumConstraints_loop (normalizeSql (''CHECK (status IN ('a','b'' @ [SQ])) (6 + 1)
   \<and> parseEnumConstraints (''CHECK (status IN ('a','b'' @ [SQ]) = []
   \<and> enums_get (introspectCheckConstraintEnums
        [\<lparr>row_name = ''t'', row_sql = Some (''CHECK (status IN ('a','b'' @ [SQ])\<rparr>]) ''t.status''
       = None"
proof -
  let ?n = "normalizeSql (''CHECK (status IN ('a','b'' @ [SQ])"
  have h1: "indexOf ?n ''check'' 0 = Some 0" by code_simp
  have h2: "indexOf ?n ''('' 0 = Some 6" by code_simp
  have len: "length ?n - 6 = 19" by code_simp
  have h3: "unmatchedFrom ?n 6"
    unfolding unmatchedFrom_def len
  proof (intro allI impI)
    fix k :: nat assume "0 < k \<and> k \<le> 19"
    then have "k \<in> set [1..<20]" by simp
    moreover have "\<forall>k \<in> set [1..<20]. parenDepth (take k (drop 6 ?n)) \<noteq> 0" by code_simp
    ultimately show "parenDepth (take k (drop 6 ?n)) \<noteq> 0" by blast
  qed
  have h4: "parseEnumConstraints (''CHECK (status IN ('a','b'' @ [SQ]) = []" by code_simp
  have h5: "enums_get (introspectCheckConstraintEnums
        [\<lparr>row_name = ''t'', row_sql = Some (''CHECK (status IN ('a','b'' @ [SQ])\<rparr>]) ''t.status''
       = None" by code_simp
  from scan_skips_unmatched_paren [OF h1 h2 h3] h1 h2 h3 h4 h5 show ?thesis by simp
qed

section \<open>Properties of the registry\<close>

lemma parseEnumConstraints_Nil: "parseEnumConstraints [] = []"
  by code_simp

lemma store_fold:
  "foldl (storeConstraint name) enums cs = enums ++ map_of (rev (map (registryEntry name) cs))"
proof (induction cs arbitrary: enums)
  case Nil
  show ?case by simp
next
  case (Cons c cs)
  have step: "storeConstraint name enums c = enums ++ map_of [registryEntry name c]"
    by (simp add: storeConstraint_def enums_set_def registryEntry_def Let_def)
  have "foldl (storeConstraint name) enums (c # cs)
      = (enums ++ map_of [registryEntry name c]) ++ map_of (rev (map (registryEntry name) cs))"
    by (simp only: foldl_Cons Cons.IH step)
  also have "\<dots> = enums ++ map_of (rev (map (registryEntry name) (c # cs)))"
    by (simp only: list.map rev.simps map_of_append map_add_assoc)
  finally show ?case .
qed

lemma introspectRow_eq: "introspectRow enums row = enums ++ map_of (rev (rowEntries row))"
  by (cases "row_sql row")
     (auto simp: introspectRow_def rowEntries_def store_fold parseEnumConstraints_Nil)

lemma introspect_fold:
  "foldl introspectRow enums rows = enums ++ map_of (rev (registryEntries rows))"
proof (induction rows arbitrary: enums)
  case Nil
  show ?case by (simp add: registryEntries_def)
next
  case (Cons r rows)
  have "foldl introspectRow enums (r # rows)
      = (enums ++ map_of (rev (rowEntries r))) ++ map_of (rev (registryEntries rows))"
    by (simp only: foldl_Cons Cons.IH introspectRow_eq)
  also have "\<dots> = enums ++ map_of (rev (registryEntries (r # rows)))"
    by (simp only: registryEntries_def list.map concat.simps rev_append map_of_append
          map_add_assoc)
  finally show ?case .
qed

lemma registry_eq: "introspectCheckConstraintEnums rows = map_of (rev (registryEntries rows))"
  by (simp add: introspectCheckConstraintEnums_def introspect_fold)

lemma map_of_rev_last:
  "k \<notin> fst ` set es' \<Longrightarrow> map_of (rev (es @ (k, v) # es')) k = Some v"
  by (induction es' rule: rev_induct) (auto simp: map_of_append)


text \<open>
  C5. For a constraint of the table \<open>name\<close> the builder stores the sorted values under
  the key \<open>name @ ''.'' @ column\<close>: the stored list is ascending in the lexicographic
  order of strings and has the same elements as the constraint's values. The whole
  registry is the list of these stores read from the back, so that of two stores under
  one key the later one is found: a store that no later store overwrites is what
  \<open>get\<close> returns. The values \<^verbatim>\<open>['b','a','c']\<close> are stored as \<^verbatim>\<open>['a','b','c']\<close>.
\<close>

theorem registry_sorted_last_wins:
  "storeConstraint name enums c = enums(name @ ''.'' @ column c \<mapsto> sort (vals c))
   \<and> sorted (sort (vals c)) \<and> mset (sort (vals c)) = mset (vals c)
   \<and> introspectCheckConstraintEnums rows = map_of (rev (registryEntries rows))
   \<and> (registryEntries rows = es @ (k, v) # es' \<and> k \<notin> fst ` set es'
        \<longrightarrow> enums_get (introspectCheckConstraintEnums rows) k = Some v)
   \<and> sort [''b'', ''a'', ''c''] = [''a'', ''b'', ''c'']"
proof (intro conjI impI)
  show "storeConstraint name enums c = enums(name @ ''.'' @ column c \<mapsto> sort (vals c))"
    by (simp add: storeConstraint_def enums_set_def Let_def)
  show "introspectCheckConstraintEnums rows = map_of (rev (registryEntries rows))"
    by (rule registry_eq)
  show "sort [''b'', ''a'', ''c''] = [''a'', ''b'', ''c'']" by code_simp
next
  assume "registryEntries rows = es @ (k, v) # es' \<and> k \<notin> fst ` set es'"
  then show "enums_get (introspectCheckConstraintEnums rows) k = Some v"
    by (simp add: enums_get_def registry_eq map_of_rev_last del: rev_append)
qed simp_all

theorem registry_sorted_last_wins_witness:
  "registryEntries [\<lparr>row_name = ''t'', row_sql = Some ''CHECK (x IN ('b','a','c')) CHECK (x IN ('z','y'))''\<rparr>]
     = [(''t.x'', [''a'', ''b'', ''c''])] @ (''t.x'', [''y'', ''z'']) # []
   \<and> ''t.x'' \<notin> fst ` set ([] :: (string \<times> string list) list)
   \<and> enums_get (introspectCheckConstraintEnums
        [\<lparr>row_name = ''t'', row_sql = Some ''CHECK (x IN ('b','a','c')) CHECK (x IN ('z','y'))''\<rparr>]) ''t.x''
       = Some [''y'', ''z'']"
proof -
  let ?rows = "[\<lparr>row_name = ''t'', row_sql = Some ''CHECK (x IN ('b','a','c')) CHECK (x IN ('z','y'))''\<rparr>]"
  have e: "registryEntries ?rows = [(''t.x'', [''a'', ''b'', ''c''])] @ (''t.x'', [''y'', ''z'']) # []"
    by code_simp
  have n: "''t.x'' \<notin> fst ` set ([] :: (string \<times> string list) list)" by simp
  from registry_sorted_last_wins [of _ _ _ ?rows "[(''t.x'', [''a'', ''b'', ''c''])]" "''t.x''" "[''y'', ''z'']" "[]"]
    e n show ?thesis by blast
qed


lemma registry_values_nonempty:
  assumes "introspectCheckConstraintEnums rows k = Some v"
  shows "v \<noteq> []"
proof -
  from assms have "(k, v) \<in> set (registryEntries rows)"
    by (auto simp: registry_eq dest: map_of_SomeD)
  then obtain row where row: "row \<in> set rows" "(k, v) \<in> set (rowEntries row)"
    by (auto simp: registryEntries_def)
  then obtain sql c where "c \<in> set (parseEnumConstraints sql)" "v = sort (vals c)"
    by (auto simp: rowEntries_def registryEntry_def split: option.splits)
  then have "vals c \<noteq> []" "length v = length (vals c)"
    using loop_vals_nonempty [of c "normalizeSql sql" 0] by (simp_all add: parseEnumConstraints_def)
  then show ?thesis by auto
qed

section \<open>Properties of the enricher\<close>

lemma unchanged_iff: "unchanged h h' \<longleftrightarrow> (\<exists>new. h' = h @ new)"
  unfolding unchanged_def by (metis append_eq_conv_conj append_take_drop_id)

lemma unchanged_refl: "unchanged h h"
  by (simp add: unchanged_def)

lemma unchanged_trans: "unchanged h1 h2 \<Longrightarrow> unchanged h2 h3 \<Longrightarrow> unchanged h1 h3"
  unfolding unchanged_iff by auto

lemma unchanged_append: "unchanged h (h @ new)"
  unfolding unchanged_iff by blast

lemma unchanged_length: "unchanged h h' \<Longrightarrow> length h \<le> length h'"
  unfolding unchanged_iff by auto

lemma unchanged_deref: "unchanged h h' \<Longrightarrow> deref h v = Some c \<Longrightarrow> deref h' v = Some c"
  unfolding unchanged_iff by (cases v) (auto simp: nth_append split: if_splits)

lemma unchanged_read_obj: "unchanged h h' \<Longrightarrow> read_obj h v = Some fs \<Longrightarrow> read_obj h' v = Some fs"
  unfolding read_obj_def by (auto split: option.splits cell.splits dest: unchanged_deref)

lemma unchanged_read_arr: "unchanged h h' \<Longrightarrow> read_arr h v = Some es \<Longrightarrow> read_arr h' v = Some es"
  unfolding read_arr_def by (auto split: option.splits cell.splits dest: unchanged_deref)

lemma read_obj_alloc: "read_obj (h @ [Obj fs]) (Ref (length h)) = Some fs"
  by (simp add: read_obj_def)

lemma read_arr_alloc: "read_arr (h @ [Arr es]) (Ref (length h)) = Some es"
  by (simp add: read_arr_def)

lemma fresh_later: "unchanged h h' \<Longrightarrow> fresh h (Ref (length h'))"
  by (simp add: fresh_def unchanged_length)

lemma array_map_elems_total:
  assumes "\<And>v hj. v \<in> set vs \<Longrightarrow> unchanged h0 hj \<Longrightarrow>
             \<exists>v' hk. f v hj = Some (v', hk) \<and> unchanged hj hk \<and> P v v' hk"
    and "\<And>v v' hk hl. P v v' hk \<Longrightarrow> unchanged hk hl \<Longrightarrow> P v v' hl"
    and "unchanged h0 h"
  shows "\<exists>vs' h'. array_map_elems f vs h = Some (vs', h') \<and> unchanged h h'
           \<and> list_all2 (\<lambda>v v'. P v v' h') vs vs'"
  using assms
proof (induction vs arbitrary: h)
  case Nil
  show ?case by (simp add: unchanged_refl)
next
  case (Cons v vs)
  from Cons.prems(1) [of v h] Cons.prems(3) obtain v' h1 where
    f: "f v h = Some (v', h1)" and u: "unchanged h h1" and p: "P v v' h1" by auto
  from Cons.prems(3) u have u0: "unchanged h0 h1" by (rule unchanged_trans)
  have "\<exists>vs' h'. array_map_elems f vs h1 = Some (vs', h') \<and> unchanged h1 h'
           \<and> list_all2 (\<lambda>v v'. P v v' h') vs vs'"
    by (rule Cons.IH) (use Cons.prems u0 in auto)
  then obtain vs' h' where r: "array_map_elems f vs h1 = Some (vs', h')"
    and u': "unchanged h1 h'" and l: "list_all2 (\<lambda>v v'. P v v' h') vs vs'" by blast
  from p u' have "P v v' h'" by (rule Cons.prems(2))
  with f r u u' l show ?case by (auto intro: unchanged_trans)
qed

lemma array_map_elems_post:
  assumes "\<And>v hj v' hk. v \<in> set vs \<Longrightarrow> f v hj = Some (v', hk) \<Longrightarrow> unchanged hj hk \<and> Q v' hk"
    and "\<And>v' hk hl. Q v' hk \<Longrightarrow> unchanged hk hl \<Longrightarrow> Q v' hl"
    and "array_map_elems f vs h = Some (vs', h')"
  shows "unchanged h h' \<and> list_all (\<lambda>v'. Q v' h') vs'"
  using assms
proof (induction vs arbitrary: h vs')
  case Nil
  then show ?case by (simp add: unchanged_refl)
next
  case (Cons v vs)
  from Cons.prems(3) obtain v' h1 vs1 where
    f: "f v h = Some (v', h1)" and r: "array_map_elems f vs h1 = Some (vs1, h')"
    and vs': "vs' = v' # vs1"
    by (auto split: Option.bind_splits)
  from Cons.prems(1) [of v h v' h1] f have u: "unchanged h h1" and q: "Q v' h1" by auto
  have "unchanged h1 h' \<and> list_all (\<lambda>v'. Q v' h') vs1"
    by (rule Cons.IH [OF _ _ r]) (use Cons.prems in auto)
  with u q vs' Cons.prems(2) [of v' h1 h'] show ?case by (auto intro: unchanged_trans)
qed

lemma columnEnriched_mono:
  "columnEnriched enums tn h0 hk c c' \<Longrightarrow> unchanged hk hl \<Longrightarrow> columnEnriched enums tn h0 hl c c'"
  unfolding columnEnriched_def by (blast intro: unchanged_read_obj)

lemma tableEnriched_mono:
  assumes "tableEnriched enums h0 hk t t'" "unchanged hk hl"
  shows "tableEnriched enums h0 hl t t'"
proof -
  from assms(1) obtain props tableName cols elems cols' elems' where
    p: "read_obj h0 t = Some props" "get_str props ''name'' = Some tableName"
      "map_of props ''columns'' = Some cols" "read_arr h0 cols = Some elems"
      "fresh h0 t'" "read_obj hk t' = Some (AList.update ''columns'' cols' props)"
      "fresh h0 cols'" "read_arr hk cols' = Some elems'"
      "list_all2 (columnEnriched enums tableName h0 hk) elems elems'"
    unfolding tableEnriched_def by blast
  from p(9) have "list_all2 (columnEnriched enums tableName h0 hl) elems elems'"
    by (rule list_all2_mono) (rule columnEnriched_mono [OF _ assms(2)])
  with p unchanged_read_obj [OF assms(2) p(6)] unchanged_read_arr [OF assms(2) p(8)]
  show ?thesis unfolding tableEnriched_def by blast
qed

lemma enrichColumn_step:
  assumes t: "read_obj h0 table = Some tfs" "get_str tfs ''name'' = Some tn"
    and c: "wf_column h0 c" and u: "unchanged h0 hj"
  shows "\<exists>c' hk. enrichColumn enums table c hj = Some (c', hk) \<and> unchanged hj hk
           \<and> columnEnriched enums tn h0 hk c c'"
proof -
  from c obtain fs cn where fs: "read_obj h0 c = Some fs" "get_str fs ''name'' = Some cn"
    by (auto simp: wf_column_def split: option.splits)
  let ?o = "Obj (AList.update ''enumValues'' (enumValuesOf enums (tn @ ''.'' @ cn)) fs)"
  have e: "enrichColumn enums table c hj = Some (Ref (length hj), hj @ [?o])"
    using unchanged_read_obj [OF u t(1)] unchanged_read_obj [OF u fs(1)] t(2) fs(2)
    by (simp add: enrichColumn_def alloc_def Let_def)
  have "columnEnriched enums tn h0 (hj @ [?o]) c (Ref (length hj))"
    unfolding columnEnriched_def using fs fresh_later [OF u] read_obj_alloc by blast
  with e unchanged_append show ?thesis by blast
qed

lemma enrichTable_step:
  assumes t: "wf_table h0 t" and u: "unchanged h0 hj"
  shows "\<exists>t' hk. enrichTable enums t hj = Some (t', hk) \<and> unchanged hj hk
           \<and> tableEnriched enums h0 hk t t'"
proof -
  from t obtain tfs tn cols cs where
    p: "read_obj h0 t = Some tfs" "get_str tfs ''name'' = Some tn"
      "map_of tfs ''columns'' = Some cols" "read_arr h0 cols = Some cs"
      "list_all (wf_column h0) cs"
    by (auto simp: wf_table_def split: option.splits)
  have "\<exists>cs' hk. array_map_elems (enrichColumn enums t) cs hj = Some (cs', hk) \<and> unchanged hj hk
           \<and> list_all2 (\<lambda>c c'. columnEnriched enums tn h0 hk c c') cs cs'"
  proof (rule array_map_elems_total [OF _ _ u])
    fix c hi assume "c \<in> set cs" "unchanged h0 hi"
    with p(5) have "wf_column h0 c" by (simp add: list_all_iff)
    from enrichColumn_step [OF p(1,2) this \<open>unchanged h0 hi\<close>]
    show "\<exists>c' hk. enrichColumn enums t c hi = Some (c', hk) \<and> unchanged hi hk
           \<and> columnEnriched enums tn h0 hk c c'" .
  next
    fix c c' hk hl assume "columnEnriched enums tn h0 hk c c'" "unchanged hk hl"
    then show "columnEnriched enums tn h0 hl c c'" by (rule columnEnriched_mono)
  qed
  then obtain cs' hk where m: "array_map_elems (enrichColumn enums t) cs hj = Some (cs', hk)"
    and uk: "unchanged hj hk" and l: "list_all2 (columnEnriched enums tn h0 hk) cs cs'" by blast
  let ?h1 = "hk @ [Arr cs']"
  let ?cols' = "Ref (length hk)"
  let ?h2 = "?h1 @ [Obj (AList.update ''columns'' ?cols' tfs)]"
  let ?t' = "Ref (length ?h1)"
  from u uk have u0k: "unchanged h0 hk" by (rule unchanged_trans)
  have u1: "unchanged hk ?h1" and u2: "unchanged ?h1 ?h2" by (rule unchanged_append)+
  from u1 u2 have uk2: "unchanged hk ?h2" by (rule unchanged_trans)
  from u0k u1 have u01: "unchanged h0 ?h1" by (rule unchanged_trans)
  have am: "array_map (enrichColumn enums t) cols hj = Some (?cols', ?h1)"
    using unchanged_read_arr [OF u p(4)] m by (simp add: array_map_def alloc_def)
  have e: "enrichTable enums t hj = Some (?t', ?h2)"
    using unchanged_read_obj [OF u p(1)] p(3) am by (simp add: enrichTable_def alloc_def)
  have l2: "list_all2 (columnEnriched enums tn h0 ?h2) cs cs'"
    using l by (rule list_all2_mono) (rule columnEnriched_mono [OF _ uk2])
  have ra: "read_arr ?h2 ?cols' = Some cs'"
    by (rule unchanged_read_arr [OF u2]) (rule read_arr_alloc)
  have ro: "read_obj ?h2 ?t' = Some (AList.update ''columns'' ?cols' tfs)"
    by (rule read_obj_alloc)
  have "tableEnriched enums h0 ?h2 t ?t'"
    unfolding tableEnriched_def
    using p(1-4) fresh_later [OF u01] fresh_later [OF u0k] ro ra l2 by blast
  moreover from uk uk2 have "unchanged hj ?h2" by (rule unchanged_trans)
  ultimately show ?thesis using e by blast
qed


text \<open>
  C9. Given descriptors of the promised type, \<open>createDatabaseMetadata\<close> returns, and
  the store it leaves has every cell of the store it was given, at its place and with
  its content: no table, no column and no array of the input is assigned to. What it
  returns is new: the object it returns, the array \<^verbatim>\<open>tables\<close> it holds, every table
  object of that array, every array \<^verbatim>\<open>columns\<close> and every column object are cells that
  the given store does not have. The array \<^verbatim>\<open>tables\<close> has one table for each table
  given, in the same order; each has the properties of the given table with
  \<^verbatim>\<open>columns\<close> set to the new array, which has one column for each column given, in the
  same order; each of these has the properties of the given column with the one
  property \<^verbatim>\<open>enumValues\<close> set to the list that the registry holds under
  \<open>tableName @ ''.'' @ columnName\<close>, or to null. The object returned is the model of
  \<^verbatim>\<open>DatabaseMetadata\<close>; the array \<^verbatim>\<open>tables\<close> is what the source hands to its
  constructor.
\<close>

theorem enrichment_is_projection:
  assumes "wf_tables h rawTables"
  shows "\<exists>elems elems' tables db h'.
           createDatabaseMetadata enums rawTables h = Some (db, h')
         \<and> unchanged h h'
         \<and> read_arr h rawTables = Some elems
         \<and> fresh h db \<and> read_obj h' db = Some [(''tables'', tables)]
         \<and> fresh h tables \<and> read_arr h' tables = Some elems'
         \<and> list_all2 (tableEnriched enums h h') elems elems'"
proof -
  from assms obtain ts where ts: "read_arr h rawTables = Some ts" "list_all (wf_table h) ts"
    by (auto simp: wf_tables_def split: option.splits)
  have "\<exists>ts' hk. array_map_elems (enrichTable enums) ts h = Some (ts', hk) \<and> unchanged h hk
           \<and> list_all2 (\<lambda>t t'. tableEnriched enums h hk t t') ts ts'"
  proof (rule array_map_elems_total [OF _ _ unchanged_refl])
    fix t hi assume "t \<in> set ts" "unchanged h hi"
    with ts(2) have "wf_table h t" by (simp add: list_all_iff)
    from enrichTable_step [OF this \<open>unchanged h hi\<close>]
    show "\<exists>t' hk. enrichTable enums t hi = Some (t', hk) \<and> unchanged hi hk
           \<and> tableEnriched enums h hk t t'" .
  next
    fix t t' hk hl assume "tableEnriched enums h hk t t'" "unchanged hk hl"
    then show "tableEnriched enums h hl t t'" by (rule tableEnriched_mono)
  qed
  then obtain ts' hk where m: "array_map_elems (enrichTable enums) ts h = Some (ts', hk)"
    and uk: "unchanged h hk" and l: "list_all2 (tableEnriched enums h hk) ts ts'" by blast
  let ?h1 = "hk @ [Arr ts']"
  let ?tables = "Ref (length hk)"
  let ?h2 = "?h1 @ [Obj [(''tables'', ?tables)]]"
  let ?db = "Ref (length ?h1)"
  have u1: "unchanged hk ?h1" and u2: "unchanged ?h1 ?h2" by (rule unchanged_append)+
  from u1 u2 have uk2: "unchanged hk ?h2" by (rule unchanged_trans)
  from uk u1 have u01: "unchanged h ?h1" by (rule unchanged_trans)
  from uk uk2 have u02: "unchanged h ?h2" by (rule unchanged_trans)
  have e: "createDatabaseMetadata enums rawTables h = Some (?db, ?h2)"
    using ts(1) m
    by (simp add: createDatabaseMetadata_def array_map_def newDatabaseMetadata_def alloc_def)
  have l2: "list_all2 (tableEnriched enums h ?h2) ts ts'"
    using l by (rule list_all2_mono) (rule tableEnriched_mono [OF _ uk2])
  have ra: "read_arr ?h2 ?tables = Some ts'"
    by (rule unchanged_read_arr [OF u2]) (rule read_arr_alloc)
  have ro: "read_obj ?h2 ?db = Some [(''tables'', ?tables)]" by (rule read_obj_alloc)
  from e u02 ts(1) fresh_later [OF u01] ro fresh_later [OF uk] ra l2 show ?thesis by blast
qed


theorem enrichment_is_projection_witness:
  "wf_tables exampleStore (Ref 0)
   \<and> createDatabaseMetadata [''t.y'' \<mapsto> [''a'']] (Ref 0) exampleStore
       = Some (Ref 10, exampleStore @
           [Obj [(''name'', Str ''x''), (''dataType'', Str ''TEXT''), (''enumValues'', Null)],
            Obj [(''name'', Str ''y''), (''dataType'', Str ''TEXT''), (''enumValues'', Strs [''a''])],
            Arr [Ref 5, Ref 6],
            Obj [(''name'', Str ''t''), (''isView'', Bool False), (''columns'', Ref 7)],
            Arr [Ref 8],
            Obj [(''tables'', Ref 9)]])
   \<and> unchanged exampleStore (exampleStore @
           [Obj [(''name'', Str ''x''), (''dataType'', Str ''TEXT''), (''enumValues'', Null)],
            Obj [(''name'', Str ''y''), (''dataType'', Str ''TEXT''), (''enumValues'', Strs [''a''])],
            Arr [Ref 5, Ref 6],
            Obj [(''name'', Str ''t''), (''isView'', Bool False), (''columns'', Ref 7)],
            Arr [Ref 8],
            Obj [(''tables'', Ref 9)]])
   \<and> list_all2 (tableEnriched [''t.y'' \<mapsto> [''a'']] exampleStore (exampleStore @
           [Obj [(''name'', Str ''x''), (''dataType'', Str ''TEXT''), (''enumValues'', Null)],
            Obj [(''name'', Str ''y''), (''dataType'', Str ''TEXT''), (''enumValues'', Strs [''a''])],
            Arr [Ref 5, Ref 6],
            Obj [(''name'', Str ''t''), (''isView'', Bool False), (''columns'', Ref 7)],
            Arr [Ref 8],
            Obj [(''tables'', Ref 9)]])) [Ref 1] [Ref 8]"
proof -
  let ?enums = "[''t.y'' \<mapsto> [''a'']]"
  let ?new = "[Obj [(''name'', Str ''x''), (''dataType'', Str ''TEXT''), (''enumValues'', Null)],
            Obj [(''name'', Str ''y''), (''dataType'', Str ''TEXT''), (''enumValues'', Strs [''a''])],
            Arr [Ref 5, Ref 6],
            Obj [(''name'', Str ''t''), (''isView'', Bool False), (''columns'', Ref 7)],
            Arr [Ref 8],
            Obj [(''tables'', Ref 9)]]"
  have w: "wf_tables exampleStore (Ref 0)" by code_simp
  have e: "createDatabaseMetadata ?enums (Ref 0) exampleStore = Some (Ref 10, exampleStore @ ?new)"
    by code_simp
  have r: "read_arr exampleStore (Ref 0) = Some [Ref 1]"
    "read_obj (exampleStore @ ?new) (Ref 10) = Some [(''tables'', Ref 9)]"
    "read_arr (exampleStore @ ?new) (Ref 9) = Some [Ref 8]"
    by code_simp+
  from enrichment_is_projection [OF w, of ?enums] obtain elems elems' tables db h' where
    p: "createDatabaseMetadata ?enums (Ref 0) exampleStore = Some (db, h')"
      "unchanged exampleStore h'" "read_arr exampleStore (Ref 0) = Some elems"
      "read_obj h' db = Some [(''tables'', tables)]" "read_arr h' tables = Some elems'"
      "list_all2 (tableEnriched ?enums exampleStore h') elems elems'"
    by blast
  from p(1) e have d: "db = Ref 10" "h' = exampleStore @ ?new" by simp_all
  from p(3) r(1) have 1: "elems = [Ref 1]" by simp
  from p(4) r(2) have 2: "tables = Ref 9" unfolding d by simp
  from p(5) r(3) have 3: "elems' = [Ref 8]" unfolding d 2 by simp
  from p(2) p(6) have "unchanged exampleStore (exampleStore @ ?new)"
    "list_all2 (tableEnriched ?enums exampleStore (exampleStore @ ?new)) [Ref 1] [Ref 8]"
    unfolding d 1 3 by simp_all
  with w e show ?thesis by blast
qed

lemma unchanged_fieldOf: "unchanged h h' \<Longrightarrow> fieldOf h v k = Some x \<Longrightarrow> fieldOf h' v k = Some x"
  unfolding fieldOf_def by (auto split: option.splits dest: unchanged_read_obj)

lemma fieldOf_alloc: "fieldOf (h @ [Obj fs]) (Ref (length h)) k = map_of fs k"
  by (simp add: fieldOf_def read_obj_alloc)

lemma columnOut_mono: "columnOut enums c' hk \<Longrightarrow> unchanged hk hl \<Longrightarrow> columnOut enums c' hl"
  unfolding columnOut_def by (blast intro: unchanged_fieldOf)

lemma tableOut_mono:
  assumes "tableOut enums t' hk" "unchanged hk hl"
  shows "tableOut enums t' hl"
proof -
  from assms(1) obtain cols' elems' where
    p: "fieldOf hk t' ''columns'' = Some cols'" "read_arr hk cols' = Some elems'"
      "list_all (\<lambda>c'. columnOut enums c' hk) elems'"
    unfolding tableOut_def by blast
  from p(3) have "list_all (\<lambda>c'. columnOut enums c' hl) elems'"
    unfolding list_all_iff using columnOut_mono [OF _ assms(2)] by blast
  with unchanged_fieldOf [OF assms(2) p(1)] unchanged_read_arr [OF assms(2) p(2)]
  show ?thesis unfolding tableOut_def by blast
qed

lemma enrichColumn_out:
  assumes "enrichColumn enums t c hj = Some (c', hk)"
  shows "unchanged hj hk \<and> columnOut enums c' hk"
proof -
  from assms obtain fs key where
    "c' = Ref (length hj)" "hk = hj @ [Obj (AList.update ''enumValues'' (enumValuesOf enums key) fs)]"
    by (auto simp: enrichColumn_def alloc_def Let_def split: Option.bind_splits)
  then show ?thesis
    unfolding columnOut_def by (auto simp: fieldOf_alloc update_conv' unchanged_append)
qed

lemma array_map_out:
  assumes "array_map f arr hj = Some (arr', hk)"
    and "\<And>v hj v' hk. f v hj = Some (v', hk) \<Longrightarrow> unchanged hj hk \<and> Q v' hk"
    and "\<And>v' hk hl. Q v' hk \<Longrightarrow> unchanged hk hl \<Longrightarrow> Q v' hl"
  shows "\<exists>elems' h1. unchanged hj h1 \<and> arr' = Ref (length h1) \<and> hk = h1 @ [Arr elems']
           \<and> list_all (\<lambda>v'. Q v' hk) elems'"
proof -
  from assms(1) obtain elems elems' h1 where
    m: "array_map_elems f elems hj = Some (elems', h1)"
    and r: "arr' = Ref (length h1)" "hk = h1 @ [Arr elems']"
    by (auto simp: array_map_def alloc_def split: Option.bind_splits)
  have "unchanged hj h1 \<and> list_all (\<lambda>v'. Q v' h1) elems'"
    by (rule array_map_elems_post [OF _ _ m]) (use assms(2,3) in blast)+
  moreover have "unchanged h1 hk" unfolding r by (rule unchanged_append)
  ultimately have "unchanged hj h1" "list_all (\<lambda>v'. Q v' hk) elems'"
    unfolding list_all_iff using assms(3) by blast+
  with r show ?thesis by blast
qed

lemma enrichTable_out:
  assumes "enrichTable enums t hj = Some (t', hk)"
  shows "unchanged hj hk \<and> tableOut enums t' hk"
proof -
  from assms obtain tfs cols cols' h1 where
    a: "array_map (enrichColumn enums t) cols hj = Some (cols', h1)"
    and r: "t' = Ref (length h1)" "hk = h1 @ [Obj (AList.update ''columns'' cols' tfs)]"
    by (auto simp: enrichTable_def alloc_def split: Option.bind_splits)
  have "\<exists>elems' h0. unchanged hj h0 \<and> cols' = Ref (length h0) \<and> h1 = h0 @ [Arr elems']
      \<and> list_all (\<lambda>c'. columnOut enums c' h1) elems'"
  proof (rule array_map_out [where Q = "columnOut enums", OF a])
    fix v hi v' hk assume "enrichColumn enums t v hi = Some (v', hk)"
    then show "unchanged hi hk \<and> columnOut enums v' hk" by (rule enrichColumn_out)
  next
    fix v' hk hl assume "columnOut enums v' hk" "unchanged hk hl"
    then show "columnOut enums v' hl" by (rule columnOut_mono)
  qed
  then obtain elems' h0 where
    p: "unchanged hj h0" "cols' = Ref (length h0)" "h1 = h0 @ [Arr elems']"
      "list_all (\<lambda>c'. columnOut enums c' h1) elems'" by blast
  have u1: "unchanged h1 hk" unfolding r by (rule unchanged_append)
  have u01: "unchanged h0 h1" unfolding p(3) by (rule unchanged_append)
  from p(4) have l: "list_all (\<lambda>c'. columnOut enums c' hk) elems'"
    unfolding list_all_iff using columnOut_mono [OF _ u1] by blast
  have "read_arr h1 cols' = Some elems'" unfolding p(2,3) by (rule read_arr_alloc)
  then have ra: "read_arr hk cols' = Some elems'" by (rule unchanged_read_arr [OF u1])
  have f: "fieldOf hk t' ''columns'' = Some cols'"
    unfolding r by (simp add: fieldOf_alloc update_conv')
  from p(1) u01 u1 have "unchanged hj hk" by (blast intro: unchanged_trans)
  with f ra l show ?thesis unfolding tableOut_def by blast
qed

lemma createDatabaseMetadata_out:
  assumes "createDatabaseMetadata enums rawTables h = Some (db, h')"
  shows "\<exists>tables elems'. fieldOf h' db ''tables'' = Some tables \<and> read_arr h' tables = Some elems'
           \<and> list_all (\<lambda>t'. tableOut enums t' h') elems'"
proof -
  from assms obtain tables h1 where
    a: "array_map (enrichTable enums) rawTables h = Some (tables, h1)"
    and r: "db = Ref (length h1)" "h' = h1 @ [Obj [(''tables'', tables)]]"
    by (auto simp: createDatabaseMetadata_def newDatabaseMetadata_def alloc_def
          split: Option.bind_splits)
  have "\<exists>elems' h0. unchanged h h0 \<and> tables = Ref (length h0) \<and> h1 = h0 @ [Arr elems']
      \<and> list_all (\<lambda>t'. tableOut enums t' h1) elems'"
  proof (rule array_map_out [where Q = "tableOut enums", OF a])
    fix v hi v' hk assume "enrichTable enums v hi = Some (v', hk)"
    then show "unchanged hi hk \<and> tableOut enums v' hk" by (rule enrichTable_out)
  next
    fix v' hk hl assume "tableOut enums v' hk" "unchanged hk hl"
    then show "tableOut enums v' hl" by (rule tableOut_mono)
  qed
  then obtain elems' h0 where
    p: "tables = Ref (length h0)" "h1 = h0 @ [Arr elems']"
      "list_all (\<lambda>t'. tableOut enums t' h1) elems'" by blast
  have u1: "unchanged h1 h'" unfolding r by (rule unchanged_append)
  from p(3) have l: "list_all (\<lambda>t'. tableOut enums t' h') elems'"
    unfolding list_all_iff using tableOut_mono [OF _ u1] by blast
  have "read_arr h1 tables = Some elems'" unfolding p(1,2) by (rule read_arr_alloc)
  then have ra: "read_arr h' tables = Some elems'" by (rule unchanged_read_arr [OF u1])
  have f: "fieldOf h' db ''tables'' = Some tables" unfolding r by (simp add: fieldOf_alloc)
  from f ra l show ?thesis by blast
qed

lemma output_enumValues:
  assumes "createDatabaseMetadata enums rawTables h = Some (db, h')"
    and "t \<in> set (elemsOf h' db ''tables'')" and "c \<in> set (elemsOf h' t ''columns'')"
  shows "\<exists>key. fieldOf h' c ''enumValues'' = Some (enumValuesOf enums key)"
proof -
  from createDatabaseMetadata_out [OF assms(1)] obtain tables elems' where
    p: "fieldOf h' db ''tables'' = Some tables" "read_arr h' tables = Some elems'"
      "list_all (\<lambda>t'. tableOut enums t' h') elems'" by blast
  then have "elemsOf h' db ''tables'' = elems'" by (simp add: elemsOf_def)
  with assms(2) p(3) have "tableOut enums t h'" by (simp add: list_all_iff)
  then obtain cols' cs' where
    q: "fieldOf h' t ''columns'' = Some cols'" "read_arr h' cols' = Some cs'"
      "list_all (\<lambda>c'. columnOut enums c' h') cs'" unfolding tableOut_def by blast
  then have "elemsOf h' t ''columns'' = cs'" by (simp add: elemsOf_def)
  with assms(3) q(3) have "columnOut enums c h'" by (simp add: list_all_iff)
  then show ?thesis unfolding columnOut_def .
qed


text \<open>
  C2. A span that matches the expression but whose value list tokenizes to no value is
  not recognized (\<open>parseInConstraint\<close> returns \<open>None\<close>), so every constraint the scanner
  returns has at least one value, every list stored in the registry is non-empty, and
  in the enriched output of \<open>introspect\<close> the property \<^verbatim>\<open>enumValues\<close> of a column is
  never the empty list: it is null or a non-empty list.
\<close>

theorem zero_values_never_stored:
  "(inMatch s = Some (col, body) \<and> parseValueList body = [] \<longrightarrow> parseInConstraint s = None)
   \<and> (\<forall>c \<in> set (parseEnumConstraints sql). vals c \<noteq> [])
   \<and> (\<forall>k v. enums_get (introspectCheckConstraintEnums rows) k = Some v \<longrightarrow> v \<noteq> [])
   \<and> (introspect tables rows h = Some (db, h') \<longrightarrow>
        (\<forall>t \<in> set (elemsOf h' db ''tables''). \<forall>c \<in> set (elemsOf h' t ''columns'').
           fieldOf h' c ''enumValues'' \<noteq> Some (Strs [])
           \<and> (fieldOf h' c ''enumValues'' = Some Null
              \<or> (\<exists>vs. vs \<noteq> [] \<and> fieldOf h' c ''enumValues'' = Some (Strs vs)))))"
proof (intro conjI impI ballI allI)
  assume "inMatch s = Some (col, body) \<and> parseValueList body = []"
  then show "parseInConstraint s = None" by (simp add: parseInConstraint_def)
next
  fix c assume "c \<in> set (parseEnumConstraints sql)"
  then show "vals c \<noteq> []" unfolding parseEnumConstraints_def by (rule loop_vals_nonempty)
next
  fix k v assume "enums_get (introspectCheckConstraintEnums rows) k = Some v"
  then show "v \<noteq> []" unfolding enums_get_def by (rule registry_values_nonempty)
next
  fix t c
  assume "introspect tables rows h = Some (db, h')"
    and t: "t \<in> set (elemsOf h' db ''tables'')" and c: "c \<in> set (elemsOf h' t ''columns'')"
  then have "createDatabaseMetadata (introspectCheckConstraintEnums rows) tables h = Some (db, h')"
    by (simp add: introspect_def)
  from output_enumValues [OF this t c] obtain key where
    f: "fieldOf h' c ''enumValues'' = Some (enumValuesOf (introspectCheckConstraintEnums rows) key)"
    by blast
  have e: "enumValuesOf (introspectCheckConstraintEnums rows) key = Null
      \<or> (\<exists>vs. vs \<noteq> [] \<and> enumValuesOf (introspectCheckConstraintEnums rows) key = Strs vs)"
    using registry_values_nonempty [of rows key]
    by (cases "introspectCheckConstraintEnums rows key") (simp_all add: enumValuesOf_def enums_get_def)
  from f e show "fieldOf h' c ''enumValues'' \<noteq> Some (Strs [])" by auto
  from f e show "fieldOf h' c ''enumValues'' = Some Null
      \<or> (\<exists>vs. vs \<noteq> [] \<and> fieldOf h' c ''enumValues'' = Some (Strs vs))" by auto
qed

theorem zero_values_never_stored_witness:
  "inMatch ''x in (,)'' = Some (''x'', '','') \<and> parseValueList '','' = []
   \<and> parseInConstraint ''x in (,)'' = None
   \<and> parseEnumConstraints ''CHECK (x IN (,)) CHECK (y IN ('a'))'' = [\<lparr>column = ''y'', vals = [''a'']\<rparr>]
   \<and> enums_get (introspectCheckConstraintEnums
        [\<lparr>row_name = ''t'', row_sql = Some ''CHECK (x IN (,)) CHECK (y IN ('a'))''\<rparr>]) ''t.y'' = Some [''a'']
   \<and> (case introspect (Ref 0)
              [\<lparr>row_name = ''t'', row_sql = Some ''CHECK (x IN (,)) CHECK (y IN ('a'))''\<rparr>] exampleStore of
         None \<Rightarrow> []
       | Some (db, h') \<Rightarrow>
           map (\<lambda>t. map (\<lambda>c. fieldOf h' c ''enumValues'') (elemsOf h' t ''columns''))
             (elemsOf h' db ''tables''))
       = [[Some Null, Some (Strs [''a''])]]"
proof -
  have a: "inMatch ''x in (,)'' = Some (''x'', '','')" by code_simp
  have b: "parseValueList '','' = []" by code_simp
  have c: "parseEnumConstraints ''CHECK (x IN (,)) CHECK (y IN ('a'))'' = [\<lparr>column = ''y'', vals = [''a'']\<rparr>]"
    by code_simp
  have d: "enums_get (introspectCheckConstraintEnums
        [\<lparr>row_name = ''t'', row_sql = Some ''CHECK (x IN (,)) CHECK (y IN ('a'))''\<rparr>]) ''t.y'' = Some [''a'']"
    by code_simp
  have e: "(case introspect (Ref 0)
              [\<lparr>row_name = ''t'', row_sql = Some ''CHECK (x IN (,)) CHECK (y IN ('a'))''\<rparr>] exampleStore of
         None \<Rightarrow> []
       | Some (db, h') \<Rightarrow>
           map (\<lambda>t. map (\<lambda>c. fieldOf h' c ''enumValues'') (elemsOf h' t ''columns''))
             (elemsOf h' db ''tables''))
       = [[Some Null, Some (Strs [''a''])]]"
    by code_simp
  from zero_values_never_stored [of "''x in (,)''" "''x''" "'',''"] a b
  have "parseInConstraint ''x in (,)'' = None" by blast
  with a b c d e show ?thesis by simp
qed

section \<open>The language and the first match of the recognizer's expression\<close>

lemma inMatch_all_eq:
  "inMatch_all s = do {
     (w0, r0) \<leftarrow> rx_star isSpace s;
     (g1, r1) \<leftarrow> rx_ident r0;
     rx_keyword g1 r1
   }"
  by (simp add: inMatch_all_def rx_keyword_def rx_body_def rx_close_def)

lemma in_image_cons:
  "(a, b) \<in> (\<lambda>(m, r). (c # m, r)) ` S \<longleftrightarrow> (\<exists>m. a = c # m \<and> (m, b) \<in> S)"
  by force

lemma set_bind_intro: "y \<in> set xs \<Longrightarrow> x \<in> set (f y) \<Longrightarrow> x \<in> set (List.bind xs f)"
  by (auto simp: set_list_bind)

lemma rx_star_set: "(a, b) \<in> set (rx_star P s) \<longleftrightarrow> s = a @ b \<and> list_all P a"
proof (induction s arbitrary: a)
  case Nil
  show ?case by auto
next
  case (Cons c cs)
  show ?case
  proof (cases a)
    case Nil
    then show ?thesis by (auto simp: in_image_cons)
  next
    case a: (Cons x m)
    have "(x # m, b) \<in> set (rx_star P (c # cs)) \<longleftrightarrow> P c \<and> x = c \<and> (m, b) \<in> set (rx_star P cs)"
      by (simp add: in_image_cons)
    also have "\<dots> \<longleftrightarrow> c # cs = (x # m) @ b \<and> list_all P (x # m)"
      unfolding Cons.IH [of m] by auto
    finally show ?thesis unfolding a .
  qed
qed

lemma rx_plus_set: "(a, b) \<in> set (rx_plus P s) \<longleftrightarrow> s = a @ b \<and> a \<noteq> [] \<and> list_all P a"
proof (cases s)
  case Nil
  then show ?thesis by simp
next
  case s: (Cons c cs)
  show ?thesis
  proof (cases a)
    case Nil
    then show ?thesis unfolding s by (auto simp: in_image_cons)
  next
    case a: (Cons x m)
    have "(x # m, b) \<in> set (rx_plus P (c # cs)) \<longleftrightarrow> P c \<and> x = c \<and> (m, b) \<in> set (rx_star P cs)"
      by (simp add: in_image_cons)
    also have "\<dots> \<longleftrightarrow> c # cs = (x # m) @ b \<and> x # m \<noteq> [] \<and> list_all P (x # m)"
      unfolding rx_star_set by auto
    finally show ?thesis unfolding a s .
  qed
qed

lemma rx_plus_lazy_set:
  "(a, b) \<in> set (rx_plus_lazy P s) \<longleftrightarrow> s = a @ b \<and> a \<noteq> [] \<and> list_all P a"
proof (induction s arbitrary: a)
  case Nil
  show ?case by auto
next
  case (Cons c cs)
  show ?case
  proof (cases a)
    case Nil
    then show ?thesis by (auto simp: in_image_cons)
  next
    case a: (Cons x m)
    have "(x # m, b) \<in> set (rx_plus_lazy P (c # cs)) \<longleftrightarrow>
        P c \<and> x = c \<and> ((m = [] \<and> b = cs) \<or> (m, b) \<in> set (rx_plus_lazy P cs))"
      by (auto simp: in_image_cons)
    also have "\<dots> \<longleftrightarrow> c # cs = (x # m) @ b \<and> x # m \<noteq> [] \<and> list_all P (x # m)"
      unfolding Cons.IH [of m] by auto
    finally show ?thesis unfolding a .
  qed
qed

lemma rx_ident_set: "(a, b) \<in> set (rx_ident s) \<longleftrightarrow> s = a @ b \<and> isIdentifier a"
proof (cases s)
  case Nil
  then show ?thesis by (simp add: isIdentifier_def)
next
  case s: (Cons c cs)
  show ?thesis
  proof (cases a)
    case Nil
    then show ?thesis unfolding s by (auto simp: in_image_cons isIdentifier_def)
  next
    case a: (Cons x m)
    have "(x # m, b) \<in> set (rx_ident (c # cs)) \<longleftrightarrow>
        isIdentStart c \<and> x = c \<and> (m, b) \<in> set (rx_star isWord cs)"
      by (simp add: in_image_cons)
    also have "\<dots> \<longleftrightarrow> c # cs = (x # m) @ b \<and> isIdentifier (x # m)"
      unfolding rx_star_set by (auto simp: isIdentifier_def)
    finally show ?thesis unfolding a s .
  qed
qed

lemma rx_lit_set: "r \<in> set (rx_lit l s) \<longleftrightarrow> s = l @ r"
proof
  assume "r \<in> set (rx_lit l s)"
  then have "take (length l) s = l" "r = drop (length l) s"
    by (auto simp: rx_lit_def split: if_splits)
  then show "s = l @ r" by (metis append_take_drop_id)
next
  assume "s = l @ r"
  then show "r \<in> set (rx_lit l s)" by (simp add: rx_lit_def)
qed

lemma rx_end_set: "x \<in> set (rx_end g s) \<longleftrightarrow> x = g \<and> s = []"
  by (auto simp: rx_end_def)

lemma rx_close_set:
  "x \<in> set (rx_close g r) \<longleftrightarrow>
     x = g \<and> (\<exists>w4 w5. r = w4 @ '')'' @ w5 \<and> list_all isSpace w4 \<and> list_all isSpace w5)"
proof
  assume "x \<in> set (rx_close g r)"
  then obtain w4 r8 r9 w5 r10 where "(w4, r8) \<in> set (rx_star isSpace r)"
    "r9 \<in> set (rx_lit '')'' r8)" "(w5, r10) \<in> set (rx_star isSpace r9)" "x \<in> set (rx_end g r10)"
    unfolding rx_close_def by (auto simp: set_list_bind)
  then show "x = g \<and> (\<exists>w4 w5. r = w4 @ '')'' @ w5 \<and> list_all isSpace w4 \<and> list_all isSpace w5)"
    unfolding rx_star_set rx_lit_set rx_end_set by auto
next
  assume "x = g \<and> (\<exists>w4 w5. r = w4 @ '')'' @ w5 \<and> list_all isSpace w4 \<and> list_all isSpace w5)"
  then obtain w4 w5 where x: "x = g" and r: "r = w4 @ '')'' @ w5"
    and ws: "list_all isSpace w4" "list_all isSpace w5" by blast
  have 1: "(w4, '')'' @ w5) \<in> set (rx_star isSpace r)" using r ws by (simp add: rx_star_set)
  have 2: "w5 \<in> set (rx_lit '')'' ('')'' @ w5))" by (simp add: rx_lit_set)
  have 3: "(w5, []) \<in> set (rx_star isSpace w5)" using ws by (simp add: rx_star_set)
  have 4: "x \<in> set (rx_end g [])" using x by (simp add: rx_end_set)
  show "x \<in> set (rx_close g r)"
    unfolding rx_close_def
    apply (rule set_bind_intro [OF 1])
    apply (simp only: prod.case)
    apply (rule set_bind_intro [OF 2])
    apply (rule set_bind_intro [OF 3])
    apply (simp only: prod.case 4)
    done
qed

lemma rx_body_set:
  "x \<in> set (rx_body g1 r) \<longleftrightarrow>
     (\<exists>w3 g2 w4 w5. x = (g1, g2) \<and> r = w3 @ g2 @ w4 @ '')'' @ w5 \<and> g2 \<noteq> [] \<and> list_all isDot g2
        \<and> list_all isSpace w3 \<and> list_all isSpace w4 \<and> list_all isSpace w5)"
  (is "?L \<longleftrightarrow> ?R")
proof
  assume ?L
  then obtain w3 r6 g2 r7 where "(w3, r6) \<in> set (rx_star isSpace r)"
    "(g2, r7) \<in> set (rx_plus_lazy isDot r6)" "x \<in> set (rx_close (g1, g2) r7)"
    unfolding rx_body_def by (auto simp: set_list_bind)
  then show ?R unfolding rx_star_set rx_plus_lazy_set rx_close_set by auto
next
  assume ?R
  then obtain w3 g2 w4 w5 where x: "x = (g1, g2)" and r: "r = w3 @ g2 @ w4 @ '')'' @ w5"
    and g2: "g2 \<noteq> []" "list_all isDot g2"
    and ws: "list_all isSpace w3" "list_all isSpace w4" "list_all isSpace w5" by blast
  have 1: "(w3, g2 @ w4 @ '')'' @ w5) \<in> set (rx_star isSpace r)"
    using r ws by (simp add: rx_star_set)
  have 2: "(g2, w4 @ '')'' @ w5) \<in> set (rx_plus_lazy isDot (g2 @ w4 @ '')'' @ w5))"
    using g2 by (simp add: rx_plus_lazy_set)
  have 3: "x \<in> set (rx_close (g1, g2) (w4 @ '')'' @ w5))"
    unfolding rx_close_set using x ws by blast
  show ?L
    unfolding rx_body_def
    apply (rule set_bind_intro [OF 1])
    apply (simp only: prod.case)
    apply (rule set_bind_intro [OF 2])
    apply (simp only: prod.case 3)
    done
qed

lemma rx_keyword_set:
  "x \<in> set (rx_keyword g1 r) \<longleftrightarrow>
     (\<exists>w1 w2 w3 g2 w4 w5. x = (g1, g2)
        \<and> r = w1 @ ''in'' @ w2 @ ''('' @ w3 @ g2 @ w4 @ '')'' @ w5
        \<and> w1 \<noteq> [] \<and> g2 \<noteq> [] \<and> list_all isDot g2
        \<and> list_all isSpace w1 \<and> list_all isSpace w2
        \<and> list_all isSpace w3 \<and> list_all isSpace w4 \<and> list_all isSpace w5)"
  (is "?L \<longleftrightarrow> ?R")
proof
  assume ?L
  then obtain w1 r2 r3 w2 r4 r5 where a: "(w1, r2) \<in> set (rx_plus isSpace r)"
    "r3 \<in> set (rx_lit ''in'' r2)" "(w2, r4) \<in> set (rx_star isSpace r3)"
    "r5 \<in> set (rx_lit ''('' r4)" "x \<in> set (rx_body g1 r5)"
    unfolding rx_keyword_def by (auto simp: set_list_bind)
  from a(5) obtain w3 g2 w4 w5 where b: "x = (g1, g2)" "r5 = w3 @ g2 @ w4 @ '')'' @ w5"
    "g2 \<noteq> []" "list_all isDot g2" "list_all isSpace w3" "list_all isSpace w4" "list_all isSpace w5"
    unfolding rx_body_set by blast
  from a(1-4) have "r = w1 @ ''in'' @ w2 @ ''('' @ r5" "w1 \<noteq> []" "list_all isSpace w1"
    "list_all isSpace w2"
    unfolding rx_plus_set rx_star_set rx_lit_set by auto
  with b show ?R by blast
next
  assume ?R
  then obtain w1 w2 w3 g2 w4 w5 where x: "x = (g1, g2)"
    and r: "r = w1 @ ''in'' @ w2 @ ''('' @ w3 @ g2 @ w4 @ '')'' @ w5"
    and ne: "w1 \<noteq> []" "g2 \<noteq> []" "list_all isDot g2"
    and ws: "list_all isSpace w1" "list_all isSpace w2" "list_all isSpace w3"
       "list_all isSpace w4" "list_all isSpace w5" by blast
  let ?r5 = "w3 @ g2 @ w4 @ '')'' @ w5"
  have 1: "(w1, ''in'' @ w2 @ ''('' @ ?r5) \<in> set (rx_plus isSpace r)"
    using r ws ne by (simp add: rx_plus_set)
  have 2: "w2 @ ''('' @ ?r5 \<in> set (rx_lit ''in'' (''in'' @ w2 @ ''('' @ ?r5))"
    unfolding rx_lit_set ..
  have 3: "(w2, ''('' @ ?r5) \<in> set (rx_star isSpace (w2 @ ''('' @ ?r5))"
    using ws by (simp add: rx_star_set)
  have 4: "?r5 \<in> set (rx_lit ''('' (''('' @ ?r5))"
    unfolding rx_lit_set ..
  have 5: "x \<in> set (rx_body g1 ?r5)"
    unfolding rx_body_set using x ne ws by blast
  show ?L
    unfolding rx_keyword_def
    apply (rule set_bind_intro [OF 1])
    apply (simp only: prod.case)
    apply (rule set_bind_intro [OF 2])
    apply (rule set_bind_intro [OF 3])
    apply (simp only: prod.case)
    apply (rule set_bind_intro [OF 4])
    apply (rule 5)
    done
qed

lemma inMatch_all_set:
  "(g1, g2) \<in> set (inMatch_all s) \<longleftrightarrow>
     (\<exists>w0 w1 w2 w3 w4 w5.
        s = w0 @ g1 @ w1 @ ''in'' @ w2 @ ''('' @ w3 @ g2 @ w4 @ '')'' @ w5
        \<and> isIdentifier g1 \<and> w1 \<noteq> [] \<and> g2 \<noteq> [] \<and> list_all isDot g2
        \<and> list_all isSpace w0 \<and> list_all isSpace w1 \<and> list_all isSpace w2
        \<and> list_all isSpace w3 \<and> list_all isSpace w4 \<and> list_all isSpace w5)"
  (is "?L \<longleftrightarrow> ?R")
proof
  assume ?L
  then obtain w0 r0 g r1 where a: "(w0, r0) \<in> set (rx_star isSpace s)"
    "(g, r1) \<in> set (rx_ident r0)" "(g1, g2) \<in> set (rx_keyword g r1)"
    unfolding inMatch_all_eq by (auto simp: set_list_bind)
  from a(3) obtain w1 w2 w3 w4 w5 where b: "g = g1"
    "r1 = w1 @ ''in'' @ w2 @ ''('' @ w3 @ g2 @ w4 @ '')'' @ w5"
    "w1 \<noteq> []" "g2 \<noteq> []" "list_all isDot g2" "list_all isSpace w1" "list_all isSpace w2"
    "list_all isSpace w3" "list_all isSpace w4" "list_all isSpace w5"
    unfolding rx_keyword_set by blast
  from a(1,2) have "s = w0 @ g @ r1" "list_all isSpace w0" "isIdentifier g"
    unfolding rx_star_set rx_ident_set by auto
  with b show ?R by blast
next
  assume ?R
  then obtain w0 w1 w2 w3 w4 w5 where
    s: "s = w0 @ g1 @ w1 @ ''in'' @ w2 @ ''('' @ w3 @ g2 @ w4 @ '')'' @ w5"
    and ne: "isIdentifier g1" "w1 \<noteq> []" "g2 \<noteq> []" "list_all isDot g2"
    and ws: "list_all isSpace w0" "list_all isSpace w1" "list_all isSpace w2"
      "list_all isSpace w3" "list_all isSpace w4" "list_all isSpace w5" by blast
  let ?r1 = "w1 @ ''in'' @ w2 @ ''('' @ w3 @ g2 @ w4 @ '')'' @ w5"
  have 1: "(w0, g1 @ ?r1) \<in> set (rx_star isSpace s)" using s ws by (simp add: rx_star_set)
  have 2: "(g1, ?r1) \<in> set (rx_ident (g1 @ ?r1))" using ne by (simp add: rx_ident_set)
  have 3: "(g1, g2) \<in> set (rx_keyword g1 ?r1)" unfolding rx_keyword_set using ne ws by blast
  show ?L
    unfolding inMatch_all_eq
    apply (rule set_bind_intro [OF 1])
    apply (simp only: prod.case)
    apply (rule set_bind_intro [OF 2])
    apply (simp only: prod.case 3)
    done
qed





lemma bind_hd:
  "xs = x # xs' \<Longrightarrow> f x = y # ys \<Longrightarrow> \<exists>rest. List.bind xs f = y # rest"
  by simp









section \<open>Lower-casing\<close>










section \<open>Tokenizing a well-formed value list\<close>



lemma last_dropWhile: "dropWhile P xs \<noteq> [] \<Longrightarrow> last (dropWhile P xs) = last xs"
  by (induction xs) (auto split: if_splits)

lemma trim_is_trimmed:
  assumes "trim x \<noteq> []"
  shows "isTrimmed (trim x)"
proof -
  let ?d = "dropWhile isSpace x"
  let ?e = "dropWhile isSpace (rev ?d)"
  from assms have e: "?e \<noteq> []" by (simp add: trim_def)
  have d: "?d \<noteq> []"
  proof
    assume "?d = []"
    then have "?e = []" by (simp only: rev.simps dropWhile.simps)
    with e show False ..
  qed
  from e have 1: "\<not> isSpace (hd ?e)" by (rule hd_dropWhile)
  from d have 2: "\<not> isSpace (hd ?d)" by (rule hd_dropWhile)
  from e have "last ?e = last (rev ?d)" by (rule last_dropWhile)
  with d have 3: "last ?e = hd ?d" by (simp add: last_rev)
  have "hd (rev ?e) = last ?e" "last (rev ?e) = hd ?e" using e by (simp_all add: hd_rev last_rev)
  with 1 2 3 e show ?thesis by (simp add: isTrimmed_def trim_def)
qed






lemma unquoted_run:
  "list_all (\<lambda>c. c \<noteq> SQ \<and> c \<noteq> DQ \<and> c \<noteq> CHR '','') u \<Longrightarrow>
   parseValueList_loop acc cur False None (u @ rest)
     = parseValueList_loop acc (cur @ u) False None rest"
  by (induction u arbitrary: cur) simp_all


lemma unquoted_comma:
  "parseValueList_loop acc cur False None (CHR '','' # rest)
     = parseValueList_loop (if trim cur \<noteq> [] then acc @ [trim cur] else acc) [] False None rest"
  by (simp add: Let_def)

lemma quoted_literal:
  assumes "q = SQ \<or> q = DQ" "rest = [] \<or> hd rest \<noteq> q"
  shows "parseValueList_loop acc cur False None (q # doubleQuotes q w @ q # rest)
     = parseValueList_loop acc (cur @ w) False None rest"
proof -
  have "parseValueList_loop acc cur False None (q # doubleQuotes q w @ q # rest)
      = parseValueList_loop acc cur True (Some q) (doubleQuotes q w @ q # rest)"
    using assms(1) by auto
  then show ?thesis by (simp only: quoted_content [OF assms(2)])
qed


lemma loop_end:
  "parseValueList_loop acc cur inQ qc [] = (if trim cur \<noteq> [] then acc @ [trim cur] else acc)"
  by (simp add: Let_def)



















lemma commit_trimmed:
  "list_all isTrimmed acc \<Longrightarrow> list_all isTrimmed (if trim cur \<noteq> [] then acc @ [trim cur] else acc)"
  by (simp add: trim_is_trimmed)

lemma loop_values_trimmed:
  "list_all isTrimmed acc \<Longrightarrow> list_all isTrimmed (parseValueList_loop acc cur inQ qc s)"
proof (induction acc cur inQ qc s rule: parseValueList_loop.induct)
  case (1 acc cur inQ qc)
  then show ?case using commit_trimmed [of acc cur] by (simp add: Let_def)
next
  case (2 acc cur inQ qc c cs)
  note acc = "2.prems"
  show ?case
  proof (cases "\<not> inQ \<and> (c = DQ \<or> c = SQ)")
    case True
    with "2.IH"(1) [OF True acc] show ?thesis by simp
  next
    case a: False
    show ?thesis
    proof (cases "inQ \<and> Some c = qc")
      case True
      show ?thesis
      proof (cases cs)
        case Nil
        with "2.IH"(2) [OF a True Nil acc] a True show ?thesis by simp
      next
        case (Cons d ds)
        show ?thesis
        proof (cases "Some d = qc")
          case d: True
          with "2.IH"(3) [OF a True Cons d acc] a True Cons show ?thesis by simp
        next
          case d: False
          with "2.IH"(4) [OF a True Cons d acc] a True Cons show ?thesis by simp
        qed
      qed
    next
      case b: False
      show ?thesis
      proof (cases "\<not> inQ \<and> c = CHR '',''")
        case True
        have "list_all isTrimmed (if trim cur \<noteq> [] then acc @ [trim cur] else acc)"
          by (rule commit_trimmed [OF acc])
        with "2.IH"(5) [OF a b True refl] a b True show ?thesis by (simp add: Let_def)
      next
        case False
        have "parseValueList_loop acc cur inQ qc (c # cs)
            = parseValueList_loop acc (cur @ [c]) inQ qc cs"
          using a b False by (cases inQ) auto
        with "2.IH"(6) [OF a b False acc] show ?thesis by simp
      qed
    qed
  qed
qed

lemma stray_comma:
  "parseValueList_loop acc cur False None '','' = parseValueList_loop acc cur False None []"
  by (simp add: Let_def trim_def)

lemma single_quoted:
  assumes "q = SQ \<or> q = DQ"
  shows "parseValueList (q # doubleQuotes q w @ [q]) = (if trim w \<noteq> [] then [trim w] else [])"
  unfolding parseValueList_def
  using quoted_literal [OF assms, of "[]" "[]" "[]" w] by (simp add: loop_end)

lemma single_unquoted:
  assumes "list_all (\<lambda>c. c \<noteq> SQ \<and> c \<noteq> DQ \<and> c \<noteq> CHR '','') u"
  shows "parseValueList u = (if trim u \<noteq> [] then [trim u] else [])"
  unfolding parseValueList_def
  using unquoted_run [OF assms, of "[]" "[]" "[]"] by (simp add: loop_end)

text \<open>
  C8, as the code has it. The tokenizer trims the whole accumulated value, wherever its
  characters came from: every value it returns is non-empty and has no white space at
  either end. The value accumulated when the input ends is appended if and only if it
  is non-empty after trimming, and so is the value that a comma ends; a stray trailing
  comma adds nothing. An unquoted value is returned trimmed. A quoted literal with the
  content \<open>w\<close> gives \<open>trim w\<close>: white space inside the quotes is kept between the
  outermost other characters of the value, and is removed at its two ends.
\<close>

theorem tokenizer_trims_every_value:
  "(\<forall>v \<in> set (parseValueList s). v \<noteq> [] \<and> \<not> isSpace (hd v) \<and> \<not> isSpace (last v))
   \<and> parseValueList_loop acc cur inQ qc []
       = (if trim cur \<noteq> [] then acc @ [trim cur] else acc)
   \<and> parseValueList_loop acc cur False None (CHR '','' # rest)
       = parseValueList_loop (if trim cur \<noteq> [] then acc @ [trim cur] else acc) [] False None rest
   \<and> parseValueList_loop acc cur False None '','' = parseValueList_loop acc cur False None []
   \<and> (list_all (\<lambda>c. c \<noteq> SQ \<and> c \<noteq> DQ \<and> c \<noteq> CHR '','') u
        \<longrightarrow> parseValueList u = (if trim u \<noteq> [] then [trim u] else []))
   \<and> (q = SQ \<or> q = DQ
        \<longrightarrow> parseValueList (q # doubleQuotes q w @ [q]) = (if trim w \<noteq> [] then [trim w] else []))"
proof (intro conjI impI ballI)
  fix v assume "v \<in> set (parseValueList s)"
  moreover have "list_all isTrimmed (parseValueList s)"
    unfolding parseValueList_def by (rule loop_values_trimmed) simp
  ultimately have "isTrimmed v" by (simp add: list_all_iff)
  then show "v \<noteq> []" "\<not> isSpace (hd v)" "\<not> isSpace (last v)" by (simp_all add: isTrimmed_def)
next
  show "parseValueList_loop acc cur inQ qc [] = (if trim cur \<noteq> [] then acc @ [trim cur] else acc)"
    by (rule loop_end)
next
  show "parseValueList_loop acc cur False None (CHR '','' # rest)
       = parseValueList_loop (if trim cur \<noteq> [] then acc @ [trim cur] else acc) [] False None rest"
    by (rule unquoted_comma)
next
  show "parseValueList_loop acc cur False None '','' = parseValueList_loop acc cur False None []"
    by (rule stray_comma)
next
  assume "list_all (\<lambda>c. c \<noteq> SQ \<and> c \<noteq> DQ \<and> c \<noteq> CHR '','') u"
  then show "parseValueList u = (if trim u \<noteq> [] then [trim u] else [])" by (rule single_unquoted)
next
  assume "q = SQ \<or> q = DQ"
  then show "parseValueList (q # doubleQuotes q w @ [q]) = (if trim w \<noteq> [] then [trim w] else [])"
    by (rule single_quoted)
qed

theorem tokenizer_trims_every_value_witness:
  "parseValueList ('' a b , '' @ [SQ] @ '' c  d '' @ [SQ] @ '' ,, '') = [''a b'', ''c  d'']
   \<and> list_all (\<lambda>c. c \<noteq> SQ \<and> c \<noteq> DQ \<and> c \<noteq> CHR '','') ''  a b ''
   \<and> parseValueList ''  a b '' = [''a b'']
   \<and> parseValueList (SQ # doubleQuotes SQ '' c, d '' @ [SQ]) = [''c, d'']"
proof -
  have 1: "parseValueList ('' a b , '' @ [SQ] @ '' c  d '' @ [SQ] @ '' ,, '') = [''a b'', ''c  d'']"
    by code_simp
  have 2: "list_all (\<lambda>c. c \<noteq> SQ \<and> c \<noteq> DQ \<and> c \<noteq> CHR '','') ''  a b ''" by simp
  have 3: "trim ''  a b '' = ''a b''" "trim '' c, d '' = ''c, d''" by code_simp+
  from tokenizer_trims_every_value
    [of "'' a b , '' @ [SQ] @ '' c  d '' @ [SQ] @ '' ,, ''" "[]" "[]" False None "[]" "''  a b ''" SQ "'' c, d ''"]
    1 2 3 show ?thesis by simp
qed

text \<open>
  C8, as stated, says that white space that appeared inside quotes is preserved. The
  literal \<^verbatim>\<open>' a '\<close> gives the value \<^verbatim>\<open>a\<close>, not the quoted content.
\<close>

theorem quoted_edge_whitespace_trimmed:
  "parseValueList (SQ # '' a '' @ [SQ]) = [''a''] \<and> parseValueList (SQ # '' a '' @ [SQ]) \<noteq> ['' a '']"
  by code_simp

section \<open>What starts an extraction\<close>

lemma indexOf_loop_first:
  "k + length pat \<le> length s \<Longrightarrow> take (length pat) (drop k s) = pat \<Longrightarrow>
   (\<forall>j<k. take (length pat) (drop j s) \<noteq> pat) \<Longrightarrow> indexOf_loop pat s i = Some (i + k)"
proof (induction s arbitrary: i k)
  case Nil
  then show ?case by simp
next
  case (Cons c cs)
  show ?case
  proof (cases k)
    case 0
    with Cons.prems show ?thesis by simp
  next
    case (Suc k')
    with Cons.prems(3) have ne: "take (length pat) (c # cs) \<noteq> pat" by (metis drop0 zero_less_Suc)
    have "\<forall>j<k'. take (length pat) (drop j cs) \<noteq> pat"
    proof (intro allI impI)
      fix j assume "j < k'"
      then have "Suc j < k" using Suc by simp
      with Cons.prems(3) have "take (length pat) (drop (Suc j) (c # cs)) \<noteq> pat" by blast
      then show "take (length pat) (drop j cs) \<noteq> pat" by simp
    qed
    moreover from Cons.prems(1,2) Suc have "k' + length pat \<le> length cs"
      "take (length pat) (drop k' cs) = pat" by simp_all
    ultimately have "indexOf_loop pat cs (Suc i) = Some (Suc i + k')" by (rule Cons.IH [rotated 2])
    with ne Suc show ?thesis by simp
  qed
qed

lemma indexOf_first:
  assumes "si \<le> ci" "ci + length pat \<le> length n" "take (length pat) (drop ci n) = pat"
    "\<forall>j. si \<le> j \<and> j < ci \<longrightarrow> take (length pat) (drop j n) \<noteq> pat"
  shows "indexOf n pat si = Some ci"
proof -
  have 1: "(ci - si) + length pat \<le> length (drop si n)" using assms(1,2) by simp
  have 2: "take (length pat) (drop (ci - si) (drop si n)) = pat" using assms(1,3) by simp
  have 3: "\<forall>j<ci - si. take (length pat) (drop j (drop si n)) \<noteq> pat"
  proof (intro allI impI)
    fix j assume "j < ci - si"
    then have "si \<le> j + si \<and> j + si < ci" by simp
    with assms(4) have "take (length pat) (drop (j + si) n) \<noteq> pat" by blast
    then show "take (length pat) (drop j (drop si n)) \<noteq> pat" by simp
  qed
  from indexOf_loop_first [OF 1 2 3, of "min si (length n)"] assms(1,2)
  show ?thesis by (simp add: indexOf_def min_def)
qed

text \<open>
  C10, as the code has it. The scanner looks for the five characters \<^verbatim>\<open>check\<close> from
  its cursor \<open>si\<close> on, whatever stands before and after them: the first position
  \<open>ci\<close> at or after the cursor where they occur starts an extraction at the next opening
  parenthesis, be it the keyword, part of a longer identifier or part of a quoted
  literal, and the span found there is handed to the recognizer. Scanning goes on from
  just past the span, and the next occurrence it finds lies at or beyond that point.
  For a column named \<^verbatim>\<open>checked\<close> the extraction starts at the column name, and a
  \<^verbatim>\<open>check\<close> inside a string literal starts one that yields a constraint from a
  \<^verbatim>\<open>DEFAULT\<close> clause.
\<close>

theorem scan_triggers_on_first_substring:
  assumes "si \<le> ci" and "ci + 5 \<le> length n" and "take 5 (drop ci n) = ''check''"
    and "\<forall>j. si \<le> j \<and> j < ci \<longrightarrow> take 5 (drop j n) \<noteq> ''check''"
    and "indexOf n ''('' ci = Some oi"
    and "extractParenthesesContent n oi = Some content" and "content \<noteq> []"
  shows "parseEnumConstraints_loop n si
     = (case parseInConstraint content of None \<Rightarrow> [] | Some e \<Rightarrow> [e])
       @ parseEnumConstraints_loop n (oi + length content + 2)
     \<and> (\<forall>ci'. indexOf n ''check'' (oi + length content + 2) = Some ci'
          \<longrightarrow> oi + length content + 2 \<le> ci')"
proof -
  have len: "length ''check'' = 5" by simp
  have "indexOf n ''check'' si = Some ci"
    by (rule indexOf_first [of si ci "''check''" n, unfolded len, OF assms(1-4)])
  then have "parseEnumConstraints_loop n si
     = (case parseInConstraint content of None \<Rightarrow> [] | Some e \<Rightarrow> [e])
       @ parseEnumConstraints_loop n (oi + length content + 2)"
    using assms(5-7) by (rule loop_span)
  moreover have "\<forall>ci'. indexOf n ''check'' (oi + length content + 2) = Some ci'
          \<longrightarrow> oi + length content + 2 \<le> ci'"
    using indexOf_bound [of n "''check''" "oi + length content + 2"] by auto
  ultimately show ?thesis by simp
qed

theorem scan_triggers_on_first_substring_witness:
  "parseEnumConstraints ''CREATE TABLE t (checked TEXT CHECK (checked IN ('y','n')))''
     = [\<lparr>column = ''checked'', vals = [''y'', ''n'']\<rparr>]
   \<and> take 5 (drop 16 (normalizeSql ''CREATE TABLE t (checked TEXT CHECK (checked IN ('y','n')))''))
       = ''check''
   \<and> parseEnumConstraints
        ''CREATE TABLE t (note TEXT DEFAULT 'check', kind TEXT DEFAULT (kind IN ('a')))''
     = [\<lparr>column = ''kind'', vals = [''a'']\<rparr>]
   \<and> take 5 (drop 35 (normalizeSql
        ''CREATE TABLE t (note TEXT DEFAULT 'check', kind TEXT DEFAULT (kind IN ('a')))''))
       = ''check''"
proof -
  let ?a = "normalizeSql ''CREATE TABLE t (checked TEXT CHECK (checked IN ('y','n')))''"
  let ?b = "normalizeSql
    ''CREATE TABLE t (note TEXT DEFAULT 'check', kind TEXT DEFAULT (kind IN ('a')))''"
  have a1: "(0::nat) \<le> 16" "16 + 5 \<le> length ?a" by simp code_simp
  have a2: "take 5 (drop 16 ?a) = ''check''" by code_simp
  have a3: "\<forall>j. 0 \<le> j \<and> j < 16 \<longrightarrow> take 5 (drop j ?a) \<noteq> ''check''"
  proof (intro allI impI)
    fix j :: nat assume "0 \<le> j \<and> j < 16"
    then have "j \<in> set [0..<16]" by simp
    moreover have "\<forall>j \<in> set [0..<16]. take 5 (drop j ?a) \<noteq> ''check''" by code_simp
    ultimately show "take 5 (drop j ?a) \<noteq> ''check''" by blast
  qed
  have a4: "indexOf ?a ''('' 16 = Some 35" by code_simp
  have a5: "extractParenthesesContent ?a 35 = Some (''checked in ('y','n'' @ [SQ] @ '')'')"
    by code_simp
  have a6: "parseInConstraint (''checked in ('y','n'' @ [SQ] @ '')'')
      = Some \<lparr>column = ''checked'', vals = [''y'', ''n'']\<rparr>" by code_simp
  have a7: "parseEnumConstraints_loop ?a (35 + length (''checked in ('y','n'' @ [SQ] @ '')'') + 2) = []"
    by code_simp
  from scan_triggers_on_first_substring [OF a1 a2 a3 a4 a5] a6 a7
  have A: "parseEnumConstraints_loop ?a 0 = [\<lparr>column = ''checked'', vals = [''y'', ''n'']\<rparr>]"
    by simp
  have b1: "(0::nat) \<le> 35" "35 + 5 \<le> length ?b" by simp code_simp
  have b2: "take 5 (drop 35 ?b) = ''check''" by code_simp
  have b3: "\<forall>j. 0 \<le> j \<and> j < 35 \<longrightarrow> take 5 (drop j ?b) \<noteq> ''check''"
  proof (intro allI impI)
    fix j :: nat assume "0 \<le> j \<and> j < 35"
    then have "j \<in> set [0..<35]" by simp
    moreover have "\<forall>j \<in> set [0..<35]. take 5 (drop j ?b) \<noteq> ''check''" by code_simp
    ultimately show "take 5 (drop j ?b) \<noteq> ''check''" by blast
  qed
  have b4: "indexOf ?b ''('' 35 = Some 61" by code_simp
  have b5: "extractParenthesesContent ?b 61 = Some (''kind in ('a'' @ [SQ] @ '')'')"
    by code_simp
  have b6: "parseInConstraint (''kind in ('a'' @ [SQ] @ '')'')
      = Some \<lparr>column = ''kind'', vals = [''a'']\<rparr>" by code_simp
  have b7: "parseEnumConstraints_loop ?b (61 + length (''kind in ('a'' @ [SQ] @ '')'') + 2) = []"
    by code_simp
  from scan_triggers_on_first_substring [OF b1 b2 b3 b4 b5] b6 b7
  have B: "parseEnumConstraints_loop ?b 0 = [\<lparr>column = ''kind'', vals = [''a'']\<rparr>]"
    by simp
  from A B a2 b2 show ?thesis by (simp only: parseEnumConstraints_def simp_thms)
qed

text \<open>
  C10, as stated, says that every occurrence starts an extraction. An occurrence that
  lies inside a span already extracted is passed over: below, the occurrence at
  position 56 (inside \<^verbatim>\<open>length(checksum)\<close>) is followed by a parenthesis whose span is a
  membership clause, and the scan yields nothing.
\<close>

theorem occurrence_inside_span_not_scanned:
  "take 5 (drop 56 (normalizeSql
      ''CREATE TABLE t (checksum TEXT, kind TEXT, CHECK (length(checksum) = 8 AND (kind IN ('a','b'))))''))
     = ''check''
   \<and> indexOf (normalizeSql
      ''CREATE TABLE t (checksum TEXT, kind TEXT, CHECK (length(checksum) = 8 AND (kind IN ('a','b'))))'')
      ''('' 56 = Some 74
   \<and> extractParenthesesContent (normalizeSql
      ''CREATE TABLE t (checksum TEXT, kind TEXT, CHECK (length(checksum) = 8 AND (kind IN ('a','b'))))'')
      74 = Some (''kind in ('a','b'' @ [SQ] @ '')'')
   \<and> parseInConstraint (''kind in ('a','b'' @ [SQ] @ '')'')
       = Some \<lparr>column = ''kind'', vals = [''a'', ''b'']\<rparr>
   \<and> parseEnumConstraints
      ''CREATE TABLE t (checksum TEXT, kind TEXT, CHECK (length(checksum) = 8 AND (kind IN ('a','b'))))''
     = []"
  by code_simp


section \<open>The casing of what the scanner returns\<close>

lemma toLowerChar_idem: "toLowerChar (toLowerChar c) = toLowerChar c"
proof -
  let ?n = "of_char c :: nat"
  let ?up = "\<lambda>n::nat. (65 \<le> n \<and> n \<le> 90) \<or> (192 \<le> n \<and> n \<le> 222 \<and> n \<noteq> 215)"
  have unf: "toLowerChar x = (if ?up (of_char x) then char_of ((of_char x :: nat) + 32) else x)" for x
    by (simp only: toLowerChar_def Let_def)
  show ?thesis
  proof (cases "?up ?n")
    case True
    then have low: "toLowerChar c = char_of (?n + 32)" unfolding unf by (rule if_P)
    from True have "(of_char (char_of (?n + 32) :: char) :: nat) = ?n + 32" by auto
    with True have "\<not> ?up (of_char (char_of (?n + 32) :: char))" by auto
    then have "toLowerChar (char_of (?n + 32)) = char_of (?n + 32)"
      unfolding unf [of "char_of (?n + 32)"] by (rule if_not_P)
    with low show ?thesis by simp
  next
    case False
    then have "toLowerChar c = c" unfolding unf by (rule if_not_P)
    then show ?thesis by simp
  qed
qed

lemma normalizeSql_lower: "c \<in> set (normalizeSql sql) \<Longrightarrow> toLowerChar c = c"
  by (auto simp: normalizeSql_def toLowerCase_def toLowerChar_idem)

lemma extract_loop_subset:
  "extractParenthesesContent_loop depth content s = Some r \<Longrightarrow> set r \<subseteq> set content \<union> set s"
proof (induction depth content s rule: extractParenthesesContent_loop.induct)
  case (1 depth content)
  then show ?case by simp
next
  case (2 depth content c cs)
  show ?case
  proof (cases "c = CHR ''(''")
    case True
    from "2.prems" have "extractParenthesesContent_loop (depth + 1)
        (if depth + 1 > 1 then content @ [c] else content) cs = Some r"
      by (simp only: extractParenthesesContent_loop.simps True if_True simp_thms)
    from "2.IH"(1) [OF True this] show ?thesis by (auto split: if_splits)
  next
    case a: False
    show ?thesis
    proof (cases "c = CHR '')''")
      case True
      show ?thesis
      proof (cases "depth - 1 = 0")
        case z: True
        with "2.prems" a True show ?thesis by auto
      next
        case z: False
        with "2.prems" a True have "extractParenthesesContent_loop (depth - 1) (content @ [c]) cs = Some r"
          by simp
        from "2.IH"(2) [OF a True z this] show ?thesis by auto
      qed
    next
      case b: False
      show ?thesis
      proof (cases "depth > 0")
        case True
        with "2.prems" a b have "extractParenthesesContent_loop depth (content @ [c]) cs = Some r"
          by simp
        from "2.IH"(3) [OF a b True this] show ?thesis by auto
      next
        case False
        with "2.prems" a b have "extractParenthesesContent_loop depth content cs = Some r" by simp
        from "2.IH"(4) [OF a b False this] show ?thesis by auto
      qed
    qed
  qed
qed

lemma extract_subset: "extractParenthesesContent n i = Some r \<Longrightarrow> set r \<subseteq> set n"
  using extract_loop_subset [of 0 "[]" "drop i n" r] set_drop_subset [of i n]
  by (auto simp: extractParenthesesContent_def)

lemma inMatch_subset:
  assumes "inMatch s = Some (g1, g2)"
  shows "set g1 \<subseteq> set s \<and> set g2 \<subseteq> set s"
proof -
  from assms have "(g1, g2) \<in> set (inMatch_all s)"
    by (cases "inMatch_all s") (auto simp: inMatch_def)
  then obtain w0 w1 w2 w3 w4 w5 where
    "s = w0 @ g1 @ w1 @ ''in'' @ w2 @ ''('' @ w3 @ g2 @ w4 @ '')'' @ w5"
    unfolding inMatch_all_set by blast
  then show ?thesis by auto
qed

lemma set_trim_subset: "set (trim x) \<subseteq> set x"
  by (auto simp: trim_def dest!: set_dropWhileD)

lemma commit_chars:
  assumes "\<forall>v \<in> set acc. set v \<subseteq> A" "set cur \<subseteq> A"
  shows "\<forall>v \<in> set (if trim cur \<noteq> [] then acc @ [trim cur] else acc). set v \<subseteq> A"
  using assms set_trim_subset [of cur] by auto

lemma loop_values_chars:
  "\<forall>v \<in> set acc. set v \<subseteq> A \<Longrightarrow> set cur \<subseteq> A \<Longrightarrow> set s \<subseteq> A \<Longrightarrow>
   \<forall>v \<in> set (parseValueList_loop acc cur inQ qc s). set v \<subseteq> A"
proof (induction acc cur inQ qc s rule: parseValueList_loop.induct)
  case (1 acc cur inQ qc)
  then show ?case using commit_chars [of acc A cur] by (simp add: Let_def)
next
  case (2 acc cur inQ qc c cs)
  note acc = "2.prems"(1) and cur = "2.prems"(2)
  from "2.prems"(3) have c: "c \<in> A" and cs: "set cs \<subseteq> A" by simp_all
  from cur c have cur': "set (cur @ [c]) \<subseteq> A" by simp
  show ?case
  proof (cases "\<not> inQ \<and> (c = DQ \<or> c = SQ)")
    case True
    with "2.IH"(1) [OF True acc cur cs] show ?thesis by simp
  next
    case a: False
    show ?thesis
    proof (cases "inQ \<and> Some c = qc")
      case True
      show ?thesis
      proof (cases cs)
        case Nil
        with "2.IH"(2) [OF a True Nil acc cur cs] a True show ?thesis by simp
      next
        case (Cons d ds)
        with cs have ds: "set ds \<subseteq> A" by simp
        show ?thesis
        proof (cases "Some d = qc")
          case d: True
          with "2.IH"(3) [OF a True Cons d acc cur' ds] a True Cons show ?thesis by simp
        next
          case d: False
          with "2.IH"(4) [OF a True Cons d acc cur cs] a True Cons show ?thesis by simp
        qed
      qed
    next
      case b: False
      show ?thesis
      proof (cases "\<not> inQ \<and> c = CHR '',''")
        case True
        have "\<forall>v \<in> set (if trim cur \<noteq> [] then acc @ [trim cur] else acc). set v \<subseteq> A"
          by (rule commit_chars [OF acc cur])
        with "2.IH"(5) [OF a b True refl _ _ cs] a b True show ?thesis by (simp add: Let_def)
      next
        case False
        have "parseValueList_loop acc cur inQ qc (c # cs)
            = parseValueList_loop acc (cur @ [c]) inQ qc cs"
          using a b False by (cases inQ) auto
        with "2.IH"(6) [OF a b False acc cur' cs] show ?thesis by simp
      qed
    qed
  qed
qed

lemma parseInConstraint_chars:
  assumes "parseInConstraint s = Some c"
  shows "set (column c) \<subseteq> set s \<and> (\<forall>v \<in> set (vals c). set v \<subseteq> set s)"
proof -
  from assms obtain g1 g2 where m: "inMatch s = Some (g1, g2)"
    and c: "c = \<lparr>column = g1, vals = parseValueList g2\<rparr>"
    by (auto simp: parseInConstraint_def Let_def split: option.splits if_splits)
  from inMatch_subset [OF m] have g: "set g1 \<subseteq> set s" "set g2 \<subseteq> set s" by simp_all
  have "\<forall>v \<in> set (parseValueList g2). set v \<subseteq> set s"
    unfolding parseValueList_def by (rule loop_values_chars) (use g in simp_all)
  with g c show ?thesis by simp
qed


text \<open>
  C1. The claim says that the column name and the values keep the casing they have in
  the DDL text. The scanner cuts every span out of the lower-cased copy of the text,
  and the recognizer and the tokenizer return pieces of that span: for every input,
  the column name and every value of every constraint returned are lower-cased. For
  the column \<^verbatim>\<open>Status\<close> with the values \<^verbatim>\<open>Active\<close> and \<^verbatim>\<open>Inactive\<close> the result is
  \<^verbatim>\<open>status\<close> with \<^verbatim>\<open>active\<close> and \<^verbatim>\<open>inactive\<close>: the original casing is lost.
\<close>

theorem output_is_lower_cased:
  "(\<forall>c \<in> set (parseEnumConstraints sql).
      toLowerCase (column c) = column c \<and> (\<forall>v \<in> set (vals c). toLowerCase v = v))
   \<and> parseEnumConstraints ''CREATE TABLE t (Status TEXT CHECK (Status IN ('Active', 'Inactive')))''
       = [\<lparr>column = ''status'', vals = [''active'', ''inactive'']\<rparr>]"
proof (intro conjI ballI)
  fix c assume "c \<in> set (parseEnumConstraints sql)"
  then obtain oi content where e: "extractParenthesesContent (normalizeSql sql) oi = Some content"
    and p: "parseInConstraint content = Some c"
    unfolding parseEnumConstraints_def by (blast dest: loop_member_span)
  from extract_subset [OF e] normalizeSql_lower
  have low: "\<forall>x \<in> set content. toLowerChar x = x" by blast
  from parseInConstraint_chars [OF p] low
  have "\<forall>x \<in> set (column c). toLowerChar x = x"
    "\<forall>v \<in> set (vals c). \<forall>x \<in> set v. toLowerChar x = x" by blast+
  then show "toLowerCase (column c) = column c" "\<And>v. v \<in> set (vals c) \<Longrightarrow> toLowerCase v = v"
    by (simp_all add: toLowerCase_def map_idI)
next
  show "parseEnumConstraints ''CREATE TABLE t (Status TEXT CHECK (Status IN ('Active', 'Inactive')))''
       = [\<lparr>column = ''status'', vals = [''active'', ''inactive'']\<rparr>]"
    by code_simp
qed

theorem output_is_lower_cased_witness:
  "set (parseEnumConstraints ''CHECK (Kind IN ('A', 'b'))'') = {\<lparr>column = ''kind'', vals = [''a'', ''b'']\<rparr>}
   \<and> toLowerCase ''kind'' = ''kind'' \<and> toLowerCase ''a'' = ''a'' \<and> toLowerCase ''Kind'' \<noteq> ''Kind''"
proof -
  have e: "parseEnumConstraints ''CHECK (Kind IN ('A', 'b'))'' = [\<lparr>column = ''kind'', vals = [''a'', ''b'']\<rparr>]"
    by code_simp
  have k: "toLowerCase ''Kind'' \<noteq> ''Kind''" by code_simp
  from output_is_lower_cased [of "''CHECK (Kind IN ('A', 'b'))''"] e k
  show ?thesis by simp
qed

section \<open>The spans the recognizer accepts\<close>














end
